theory Spec2Isabelle
  imports Main "HOL-Library.Sublist"
begin

section \<open>JavaScript strings\<close>

text \<open>
  A JavaScript string is a sequence of UTF-16 code units. The regular expressions of the
  server have no \<open>u\<close> flag, so every character class below tests one code unit at a time.
  Code units are modelled as natural numbers; \<open>js\<close> turns an ASCII literal of the source
  into its code units.
\<close>

type_synonym jsstring = "nat list"

definition js :: "string \<Rightarrow> jsstring" where
  "js s = map of_char s"

text \<open>\<open>s.endsWith(t)\<close>, \<open>s.startsWith(t)\<close>.\<close>

definition endsWith :: "jsstring \<Rightarrow> jsstring \<Rightarrow> bool" where
  "endsWith s t = suffix t s"

definition startsWith :: "jsstring \<Rightarrow> jsstring \<Rightarrow> bool" where
  "startsWith s t = prefix t s"

text \<open>\<open>s.includes(t)\<close>: \<open>t\<close> occurs at some position of \<open>s\<close>.\<close>

fun String_includes :: "jsstring \<Rightarrow> jsstring \<Rightarrow> bool" where
  "String_includes [] t = (t = [])"
| "String_includes (c # cs) t = (prefix t (c # cs) \<or> String_includes cs t)"

text \<open>
  \<open>s.replace(pat, rep)\<close> with a string pattern: only the first (leftmost) occurrence of
  \<open>pat\<close> is replaced. (The replacement strings of the server contain no \<open>$\<close>.)
\<close>

fun String_replace :: "jsstring \<Rightarrow> jsstring \<Rightarrow> jsstring \<Rightarrow> jsstring" where
  "String_replace [] pat rep = (if pat = [] then rep else [])"
| "String_replace (c # cs) pat rep =
     (if prefix pat (c # cs) then rep @ drop (length pat) (c # cs)
      else c # String_replace cs pat rep)"


section \<open>Path repair\<close>

text \<open>
  \<open>fixIncompleteExtension\<close> (index.ts and DockerManager.ts hold the same text). The object
  literal \<open>extensionMap\<close> has no integer-like key, so \<open>Object.entries\<close> enumerates it in
  the order written.
\<close>

definition extensionMap :: "(string \<times> string) list" where
  "extensionMap =
    [(''.j'', ''.js''), (''.t'', ''.ts''), (''.p'', ''.py''), (''.c'', ''.cpp''),
     (''.h'', ''.hpp''), (''.ja'', ''.java''), (''.ph'', ''.php''), (''.r'', ''.rb''),
     (''.g'', ''.go''), (''.ru'', ''.rust''), (''.sw'', ''.swift''), (''.k'', ''.kt''),
     (''.s'', ''.sh''), (''.ht'', ''.html''), (''.cs'', ''.css''), (''.jso'', ''.json''),
     (''.x'', ''.xml''), (''.m'', ''.md''), (''.y'', ''.yml''), (''.do'', ''.dockerfile'')]"

text \<open>The \<open>for ... of Object.entries(extensionMap)\<close> loop, returning at the first hit.\<close>

fun fixLoop :: "(string \<times> string) list \<Rightarrow> jsstring \<Rightarrow> jsstring" where
  "fixLoop [] filePath = filePath"
| "fixLoop ((incomplete, complete) # entries) filePath =
     (if endsWith filePath (js incomplete) \<and> \<not> endsWith filePath (js complete)
      then String_replace filePath (js incomplete) (js complete)
      else fixLoop entries filePath)"

definition fixIncompleteExtension :: "jsstring \<Rightarrow> jsstring" where
  "fixIncompleteExtension filePath = fixLoop extensionMap filePath"

text \<open>
  The older \<open>file:change\<close> handler of server/index.ts repairs only \<open>.j\<close>, by appending.
\<close>

definition fixedPath_legacy :: "jsstring \<Rightarrow> jsstring" where
  "fixedPath_legacy path =
     (if endsWith path (js ''.j'') \<and> \<not> endsWith path (js ''.js'') \<and> \<not> endsWith path (js ''.json'')
      then path @ js ''s'' else path)"


section \<open>JSON.parse and JSON.stringify\<close>

text \<open>
  \<open>ultraCleanContent\<close> calls \<open>JSON.parse(cleaned)\<close> and \<open>JSON.stringify(parsed, null, 2)\<close>.
  Both are modelled after ECMA-262. A number keeps the text of its literal: what
  \<open>JSON.stringify\<close> prints for it (the shortest decimal of the nearest double, or \<open>null\<close>
  when the literal overflows to infinity) is a parameter \<open>numberToString\<close> of the model.

  An object is the list of its own properties in enumeration order: array indices first,
  in ascending order, then the other keys in the order of their creation; storing under an
  existing key keeps the key's place (\<open>defineProperty\<close>).
\<close>

datatype json = JNull | JBool bool | JNumber jsstring | JString jsstring
  | JArray "json list" | JObject "(jsstring \<times> json) list"

text \<open>
  The lexical classes of the JSON grammar: whitespace is tab, line feed, carriage return
  and space; an escape is one of \<open>\" \\ \/ \b \f \n \r \t\<close> or \<open>\u\<close> with four
  hexadecimal digits of either case.
\<close>

definition isWhitespace :: "nat \<Rightarrow> bool" where
  "isWhitespace c = (c = 9 \<or> c = 10 \<or> c = 13 \<or> c = 32)"

definition skipWs :: "jsstring \<Rightarrow> jsstring" where
  "skipWs s = dropWhile isWhitespace s"

definition isDigit :: "nat \<Rightarrow> bool" where
  "isDigit c = (48 \<le> c \<and> c \<le> 57)"

definition hexValue :: "nat \<Rightarrow> nat option" where
  "hexValue c = (if 48 \<le> c \<and> c \<le> 57 then Some (c - 48)
     else if 97 \<le> c \<and> c \<le> 102 then Some (c - 87)
     else if 65 \<le> c \<and> c \<le> 70 then Some (c - 55) else None)"

definition hex4 :: "nat \<Rightarrow> nat \<Rightarrow> nat \<Rightarrow> nat \<Rightarrow> nat option" where
  "hex4 a b c d = (case (hexValue a, hexValue b, hexValue c, hexValue d) of
      (Some h1, Some h2, Some h3, Some h4) \<Rightarrow> Some (4096 * h1 + 256 * h2 + 16 * h3 + h4)
    | _ \<Rightarrow> None)"

definition unescape :: "nat \<Rightarrow> nat option" where
  "unescape e = (if e = 34 then Some 34 else if e = 92 then Some 92 else if e = 47 then Some 47
     else if e = 98 then Some 8 else if e = 102 then Some 12 else if e = 110 then Some 10
     else if e = 114 then Some 13 else if e = 116 then Some 9 else None)"

text \<open>
  \<open>parse_chars\<close> reads a string after its opening quote, up to the closing quote: it
  returns the code units the string denotes and the text after the quote. A raw code unit
  below 32 is a syntax error.
\<close>

fun parse_chars :: "jsstring \<Rightarrow> (jsstring \<times> jsstring) option" where
  "parse_chars [] = None"
| "parse_chars (c # cs) =
    (if c = 34 then Some ([], cs)
     else if c = 92 then
       (case cs of
          [] \<Rightarrow> None
        | e # r \<Rightarrow>
           (if e = 117 then
              (case r of
                 h1 # h2 # h3 # h4 # r' \<Rightarrow>
                   (case hex4 h1 h2 h3 h4 of
                      None \<Rightarrow> None
                    | Some u \<Rightarrow> map_option (\<lambda>(str, rest). (u # str, rest)) (parse_chars r'))
               | _ \<Rightarrow> None)
            else
              (case unescape e of
                 None \<Rightarrow> None
               | Some u \<Rightarrow> map_option (\<lambda>(str, rest). (u # str, rest)) (parse_chars r))))
     else if c < 32 then None
     else map_option (\<lambda>(str, rest). (c # str, rest)) (parse_chars cs))"


text \<open>
  A number literal: an optional minus, \<open>0\<close> or a digit from 1 to 9 followed by digits, an
  optional fraction (a point and at least one digit), an optional exponent (\<open>e\<close> or
  \<open>E\<close>, an optional sign, at least one digit). \<open>parse_number\<close> returns the literal and
  the text after it.
\<close>

definition parse_int :: "jsstring \<Rightarrow> (jsstring \<times> jsstring) option" where
  "parse_int s = (case s of
      [] \<Rightarrow> None
    | c # r \<Rightarrow> if c = 48 then Some ([48], r)
               else if 49 \<le> c \<and> c \<le> 57 then Some (c # takeWhile isDigit r, dropWhile isDigit r)
               else None)"

definition parse_digits1 :: "jsstring \<Rightarrow> (jsstring \<times> jsstring) option" where
  "parse_digits1 s = (if takeWhile isDigit s = [] then None
                      else Some (takeWhile isDigit s, dropWhile isDigit s))"

definition parse_frac :: "jsstring \<Rightarrow> (jsstring \<times> jsstring) option" where
  "parse_frac s = (case s of
      c # r \<Rightarrow> if c = 46 then map_option (\<lambda>(ds, rest). (46 # ds, rest)) (parse_digits1 r)
               else Some ([], s)
    | [] \<Rightarrow> Some ([], s))"

definition parse_exp :: "jsstring \<Rightarrow> (jsstring \<times> jsstring) option" where
  "parse_exp s = (case s of
      c # r \<Rightarrow>
        if c = 101 \<or> c = 69 then
          (case r of
             g # r' \<Rightarrow> if g = 43 \<or> g = 45
                         then map_option (\<lambda>(ds, rest). (c # g # ds, rest)) (parse_digits1 r')
                         else map_option (\<lambda>(ds, rest). (c # ds, rest)) (parse_digits1 r)
           | [] \<Rightarrow> None)
        else Some ([], s)
    | [] \<Rightarrow> Some ([], s))"

definition parse_number :: "jsstring \<Rightarrow> (jsstring \<times> jsstring) option" where
  "parse_number s =
     (let (sign, s1) = (case s of c # r \<Rightarrow> if c = 45 then ([45], r) else ([], s) | [] \<Rightarrow> ([], s))
      in case parse_int s1 of
           None \<Rightarrow> None
         | Some (i, s2) \<Rightarrow>
            (case parse_frac s2 of
               None \<Rightarrow> None
             | Some (f, s3) \<Rightarrow>
                (case parse_exp s3 of
                   None \<Rightarrow> None
                 | Some (e, s4) \<Rightarrow> Some (sign @ i @ f @ e, s4))))"

text \<open>
  A key is an array index when it is the decimal numeral, without leading zero, of a
  number below \<open>2^32 - 1\<close>; such numerals are ordered by length, then digit by digit.
  \<open>defineProperty\<close> is what \<open>CreateDataProperty\<close> or an assignment \<open>o[k] = v\<close> does to
  the own properties of an ordinary object, listed in enumeration order.
\<close>

fun digitsLess :: "jsstring \<Rightarrow> jsstring \<Rightarrow> bool" where
  "digitsLess (a # as) (b # bs) = (a < b \<or> (a = b \<and> digitsLess as bs))"
| "digitsLess _ _ = False"

definition indexLess :: "jsstring \<Rightarrow> jsstring \<Rightarrow> bool" where
  "indexLess a b = (length a < length b \<or> (length a = length b \<and> digitsLess a b))"

definition isArrayIndex :: "jsstring \<Rightarrow> bool" where
  "isArrayIndex k =
     (case k of
        [] \<Rightarrow> False
      | d # ds \<Rightarrow> list_all isDigit k \<and> (if d = 48 then ds = [] else True)
                  \<and> indexLess k (js ''4294967295''))"

fun insertIndexed :: "jsstring \<Rightarrow> 'v \<Rightarrow> (jsstring \<times> 'v) list \<Rightarrow> (jsstring \<times> 'v) list" where
  "insertIndexed k v [] = [(k, v)]"
| "insertIndexed k v ((k', v') # ps) =
     (if isArrayIndex k' \<and> indexLess k' k then (k', v') # insertIndexed k v ps
      else (k, v) # (k', v') # ps)"

definition defineProperty :: "jsstring \<Rightarrow> 'v \<Rightarrow> (jsstring \<times> 'v) list \<Rightarrow> (jsstring \<times> 'v) list" where
  "defineProperty k v ps =
     (if k \<in> fst ` set ps then map (\<lambda>(k', v'). if k' = k then (k', v) else (k', v')) ps
      else if isArrayIndex k then insertIndexed k v ps
      else ps @ [(k, v)])"

text \<open>
  The recursive descent over values. \<open>parse_elements acc s\<close> reads the elements of an
  array from the first character of an element on, up to the closing bracket;
  \<open>parse_members acc s\<close> does the same for the members of an object. Each function
  returns what it has read and the unread text, or \<open>None\<close> where \<open>JSON.parse\<close> throws a
  SyntaxError. The tests \<open>length r < length s\<close> in front of the recursive calls always
  succeed, since a value is at least one character long (lemma \<open>parse_consumes\<close>);
  they are there for the termination proof.
\<close>

function parse_value :: "jsstring \<Rightarrow> (json \<times> jsstring) option"
  and parse_elements :: "json list \<Rightarrow> jsstring \<Rightarrow> (json list \<times> jsstring) option"
  and parse_members :: "(jsstring \<times> json) list \<Rightarrow> jsstring \<Rightarrow> ((jsstring \<times> json) list \<times> jsstring) option"
where
  "parse_value s =
     (case skipWs s of
        [] \<Rightarrow> None
      | c # r \<Rightarrow>
          if c = 123 then
            (case skipWs r of
               [] \<Rightarrow> None
             | d # r' \<Rightarrow> if d = 125 then Some (JObject [], r')
                          else map_option (\<lambda>(ms, rest). (JObject ms, rest)) (parse_members [] (d # r')))
          else if c = 91 then
            (case skipWs r of
               [] \<Rightarrow> None
             | d # r' \<Rightarrow> if d = 93 then Some (JArray [], r')
                          else map_option (\<lambda>(vs, rest). (JArray vs, rest)) (parse_elements [] (d # r')))
          else if c = 34 then map_option (\<lambda>(str, rest). (JString str, rest)) (parse_chars r)
          else if prefix (js ''true'') (c # r) then Some (JBool True, drop 4 (c # r))
          else if prefix (js ''false'') (c # r) then Some (JBool False, drop 5 (c # r))
          else if prefix (js ''null'') (c # r) then Some (JNull, drop 4 (c # r))
          else map_option (\<lambda>(lexeme, rest). (JNumber lexeme, rest)) (parse_number (c # r)))"
| "parse_elements acc s =
     (case parse_value s of
        None \<Rightarrow> None
      | Some (v, r) \<Rightarrow>
          if length r < length s then
            (case skipWs r of
               [] \<Rightarrow> None
             | c # r' \<Rightarrow> if c = 44 then parse_elements (acc @ [v]) r'
                          else if c = 93 then Some (acc @ [v], r')
                          else None)
          else None)"
| "parse_members acc s =
     (case skipWs s of
        [] \<Rightarrow> None
      | q # r \<Rightarrow>
          if q \<noteq> 34 then None
          else
            (case parse_chars r of
               None \<Rightarrow> None
             | Some (k, r1) \<Rightarrow>
                (case skipWs r1 of
                   [] \<Rightarrow> None
                 | colon # r2 \<Rightarrow>
                     if colon \<noteq> 58 \<or> \<not> length r2 < length s then None
                     else
                       (case parse_value r2 of
                          None \<Rightarrow> None
                        | Some (v, r3) \<Rightarrow>
                            if length r3 < length r2 then
                              (case skipWs r3 of
                                 [] \<Rightarrow> None
                               | c # r4 \<Rightarrow>
                                   if c = 44 then parse_members (defineProperty k v acc) r4
                                   else if c = 125 then Some (defineProperty k v acc, r4)
                                   else None)
                            else None))))"
  by pat_completeness auto
termination
  apply (relation "measure (\<lambda>x. case x of Inl s \<Rightarrow> 2 * length s
                              | Inr (Inl (acc, s)) \<Rightarrow> 2 * length s + 1
                              | Inr (Inr (acc, s)) \<Rightarrow> 2 * length s + 1)")
  apply simp_all
  subgoal for s c r d r'
    using length_dropWhile_le[of isWhitespace s] length_dropWhile_le[of isWhitespace r]
    by (simp add: skipWs_def)
  subgoal for s c r d r'
    using length_dropWhile_le[of isWhitespace s] length_dropWhile_le[of isWhitespace r]
    by (simp add: skipWs_def)
  subgoal for s x2 v r c r'
    using length_dropWhile_le[of isWhitespace r] by (simp add: skipWs_def)
  subgoal for s q r x2 k r1 r2 x2a v r3 c r4
    using length_dropWhile_le[of isWhitespace r3] by (simp add: skipWs_def)
  done

declare parse_value.simps [simp del] parse_elements.simps [simp del] parse_members.simps [simp del]

text \<open>\<open>JSON.parse(text)\<close>: one value, and nothing but whitespace after it.\<close>

definition JSON_parse :: "jsstring \<Rightarrow> json option" where
  "JSON_parse text = (case parse_value text of
       None \<Rightarrow> None
     | Some (v, rest) \<Rightarrow> if skipWs rest = [] then Some v else None)"

text \<open>
  \<open>QuoteJSONString\<close>: the seven short escapes, \<open>\uXXXX\<close> in lower case for the other
  code units below 32 and for a surrogate that is not part of a pair, and every other code
  unit as it is.
\<close>

definition hexDigit :: "nat \<Rightarrow> nat" where
  "hexDigit d = (if d < 10 then 48 + d else 87 + d)"

definition unicodeEscape :: "nat \<Rightarrow> jsstring" where
  "unicodeEscape c = [92, 117, hexDigit (c div 4096 mod 16), hexDigit (c div 256 mod 16),
                      hexDigit (c div 16 mod 16), hexDigit (c mod 16)]"

definition isLeadSurrogate :: "nat \<Rightarrow> bool" where
  "isLeadSurrogate c = (55296 \<le> c \<and> c \<le> 56319)"

definition isTrailSurrogate :: "nat \<Rightarrow> bool" where
  "isTrailSurrogate c = (56320 \<le> c \<and> c \<le> 57343)"

fun quoteChars :: "jsstring \<Rightarrow> jsstring" where
  "quoteChars [] = []"
| "quoteChars (c # cs) =
     (if c = 8 then [92, 98] @ quoteChars cs
      else if c = 9 then [92, 116] @ quoteChars cs
      else if c = 10 then [92, 110] @ quoteChars cs
      else if c = 12 then [92, 102] @ quoteChars cs
      else if c = 13 then [92, 114] @ quoteChars cs
      else if c = 34 then [92, 34] @ quoteChars cs
      else if c = 92 then [92, 92] @ quoteChars cs
      else if c < 32 then unicodeEscape c @ quoteChars cs
      else if isLeadSurrogate c then
        (case cs of
           [] \<Rightarrow> unicodeEscape c
         | d # ds \<Rightarrow> if isTrailSurrogate d then c # d # quoteChars ds
                      else unicodeEscape c @ quoteChars cs)
      else if isTrailSurrogate c then unicodeEscape c @ quoteChars cs
      else c # quoteChars cs)"

definition QuoteJSONString :: "jsstring \<Rightarrow> jsstring" where
  "QuoteJSONString s = [34] @ quoteChars s @ [34]"

text \<open>
  \<open>JSON.stringify(value, null, 2)\<close>: \<open>serialize\<close> is \<open>SerializeJSONProperty\<close> at the
  current indentation, with the gap of two spaces.
\<close>

fun joinWith :: "jsstring \<Rightarrow> jsstring list \<Rightarrow> jsstring" where
  "joinWith sep [] = []"
| "joinWith sep [x] = x"
| "joinWith sep (x # y # ys) = x @ sep @ joinWith sep (y # ys)"

fun serialize :: "(jsstring \<Rightarrow> jsstring) \<Rightarrow> jsstring \<Rightarrow> json \<Rightarrow> jsstring" where
  "serialize numberToString indent JNull = js ''null''"
| "serialize numberToString indent (JBool b) = (if b then js ''true'' else js ''false'')"
| "serialize numberToString indent (JNumber lexeme) = numberToString lexeme"
| "serialize numberToString indent (JString s) = QuoteJSONString s"
| "serialize numberToString indent (JArray vs) =
     (if vs = [] then js ''[]''
      else js ''['' @ [10] @ (indent @ js ''  '')
           @ joinWith (js '','' @ [10] @ (indent @ js ''  ''))
               (map (serialize numberToString (indent @ js ''  '')) vs)
           @ [10] @ indent @ js '']'')"
| "serialize numberToString indent (JObject ms) =
     (if ms = [] then js ''{}''
      else js ''{'' @ [10] @ (indent @ js ''  '')
           @ joinWith (js '','' @ [10] @ (indent @ js ''  ''))
               (map (\<lambda>(k, v). QuoteJSONString k @ js '': ''
                                @ serialize numberToString (indent @ js ''  '') v) ms)
           @ [10] @ indent @ js ''}'')"

definition JSON_stringify :: "(jsstring \<Rightarrow> jsstring) \<Rightarrow> json \<Rightarrow> jsstring" where
  "JSON_stringify numberToString v = serialize numberToString [] v"

subsection \<open>What the parser returns\<close>

text \<open>
  Predicates on texts and values, used to state what \<open>JSON.parse\<close> returns and what it
  reads back from the output of \<open>JSON.stringify\<close>. \<open>numberLiteral l\<close>: the number
  grammar of the parser accepts all of \<open>l\<close>. \<open>endsNumber t\<close>: the text \<open>t\<close> cannot
  continue a number literal written in front of it. \<open>valueStart c\<close>: a serialized value
  can begin with \<open>c\<close>.
\<close>

fun endsNumber :: "jsstring \<Rightarrow> bool" where
  "endsNumber [] = True"
| "endsNumber (c # cs) = (\<not> isDigit c \<and> c \<noteq> 46 \<and> c \<noteq> 101 \<and> c \<noteq> 69)"

definition numberLiteral :: "jsstring \<Rightarrow> bool" where
  "numberLiteral l = (parse_number l = Some (l, []))"

definition valueStart :: "nat \<Rightarrow> bool" where
  "valueStart c = (c = 123 \<or> c = 91 \<or> c = 34 \<or> c = 116 \<or> c = 102 \<or> c = 110 \<or> c = 45 \<or> isDigit c)"

text \<open>
  \<open>orderedKeys ks\<close>: the keys are distinct and in the enumeration order of own
  properties, array indices first in ascending order, then the other keys.
  \<open>wellFormed v\<close>: every number of \<open>v\<close> is a number literal and the keys of every object
  of \<open>v\<close> are ordered; the values the parser returns are of this kind.
\<close>

definition orderedKeys :: "jsstring list \<Rightarrow> bool" where
  "orderedKeys ks =
     (distinct ks \<and>
      (\<exists>a b. ks = a @ b \<and> list_all isArrayIndex a \<and> sorted_wrt indexLess a
             \<and> list_all (\<lambda>k. \<not> isArrayIndex k) b))"

fun wellFormed :: "json \<Rightarrow> bool" where
  "wellFormed JNull = True"
| "wellFormed (JBool b) = True"
| "wellFormed (JNumber l) = numberLiteral l"
| "wellFormed (JString s) = True"
| "wellFormed (JArray vs) = list_all wellFormed vs"
| "wellFormed (JObject ms) = (orderedKeys (map fst ms) \<and> list_all wellFormed (map snd ms))"

text \<open>
  The value read back from the serialization of \<open>v\<close>: every number is replaced by what
  \<open>numberToString\<close> writes for it, and by \<open>null\<close> where that is the text \<open>null\<close>
  (\<open>JSON.stringify\<close> writes \<open>null\<close> for a number that is not finite, such as the value of
  \<open>1e999\<close>). \<open>stableNumbers numberToString\<close> is the property of the number formatting that
  the round trip relies on: what it writes for a number literal is \<open>null\<close> or a number
  literal that it writes unchanged. The formatting of the language has this property:
  \<open>Number.prototype.toString\<close> writes a finite number as a literal of the JSON grammar
  that denotes the same number.
\<close>

fun reread :: "(jsstring \<Rightarrow> jsstring) \<Rightarrow> json \<Rightarrow> json" where
  "reread numberToString JNull = JNull"
| "reread numberToString (JBool b) = JBool b"
| "reread numberToString (JNumber l) =
     (if numberToString l = js ''null'' then JNull else JNumber (numberToString l))"
| "reread numberToString (JString s) = JString s"
| "reread numberToString (JArray vs) = JArray (map (reread numberToString) vs)"
| "reread numberToString (JObject ms) =
     JObject (map (\<lambda>(k, v). (k, reread numberToString v)) ms)"

definition stableNumbers :: "(jsstring \<Rightarrow> jsstring) \<Rightarrow> bool" where
  "stableNumbers numberToString =
     (\<forall>l. numberLiteral l \<longrightarrow>
        numberToString l = js ''null''
        \<or> (numberLiteral (numberToString l)
            \<and> numberToString (numberToString l) = numberToString l))"


section \<open>Content cleaning\<close>

text \<open>
  The character classes of \<open>ultraCleanContent\<close>: step 1 deletes what
  \<open>/[^\x20-\x7E\x09\x0A]/g\<close> matches (index.ts also keeps \<open>\x0D\<close>), step 2 deletes what
  \<open>/[\x00-\x08\x0B\x0C\x0E-\x1F\x7F-\xFF]/g\<close> matches.
\<close>

definition safeAscii :: "nat \<Rightarrow> bool" where
  "safeAscii c = ((32 \<le> c \<and> c \<le> 126) \<or> c = 9 \<or> c = 10)"

definition safeAscii_index :: "nat \<Rightarrow> bool" where
  "safeAscii_index c = ((32 \<le> c \<and> c \<le> 126) \<or> c = 9 \<or> c = 10 \<or> c = 13)"

definition controlCharacter :: "nat \<Rightarrow> bool" where
  "controlCharacter c = (c \<le> 8 \<or> c = 11 \<or> c = 12 \<or> (14 \<le> c \<and> c \<le> 31) \<or> (127 \<le> c \<and> c \<le> 255))"

text \<open>Step 3: \<open>.replace(/\r\n/g, '\n').replace(/\r/g, '\n')\<close>.\<close>

fun replaceCRLF :: "jsstring \<Rightarrow> jsstring" where
  "replaceCRLF [] = []"
| "replaceCRLF [c] = [c]"
| "replaceCRLF (c # d # cs) =
     (if c = 13 \<and> d = 10 then 10 # replaceCRLF cs else c # replaceCRLF (d # cs))"

definition normalizeLineEndings :: "jsstring \<Rightarrow> jsstring" where
  "normalizeLineEndings s = map (\<lambda>c. if c = 13 then 10 else c) (replaceCRLF s)"

text \<open>The object literal that replaces an unparseable \<open>package.json\<close>.\<close>

definition defaultManifest :: json where
  "defaultManifest = JObject
     [(js ''name'', JString (js ''test'')),
      (js ''version'', JString (js ''1.0.0'')),
      (js ''main'', JString (js ''index.js'')),
      (js ''type'', JString (js ''module'')),
      (js ''scripts'', JObject
         [(js ''test'', JString (js ''echo '' @ [34] @ js ''Error: no test specified'' @ [34]
                                  @ js '' && exit 1''))]),
      (js ''keywords'', JArray []),
      (js ''author'', JString []),
      (js ''license'', JString (js ''ISC'')),
      (js ''description'', JString [])]"

text \<open>
  Step 4, the same text in both files: the \<open>try\<close> re-serializes what parses, the
  \<open>catch\<close> substitutes a default.
\<close>

definition reformatJSON :: "(jsstring \<Rightarrow> jsstring) \<Rightarrow> jsstring \<Rightarrow> jsstring \<Rightarrow> jsstring" where
  "reformatJSON numberToString cleaned filePath =
     (case JSON_parse cleaned of
        Some parsed \<Rightarrow> JSON_stringify numberToString parsed
      | None \<Rightarrow>
          if String_includes filePath (js ''package.json'')
          then JSON_stringify numberToString defaultManifest
          else js ''{}'')"

text \<open>
  Steps 1 to 3 of \<open>DockerManager.ultraCleanContent\<close>, and the method itself. An empty
  \<open>content\<close> is returned at once.
\<close>

definition sanitize :: "jsstring \<Rightarrow> jsstring" where
  "sanitize content =
     (let cleaned = filter safeAscii content;
          cleaned = filter (\<lambda>c. \<not> controlCharacter c) cleaned
      in normalizeLineEndings cleaned)"

definition ultraCleanContent :: "(jsstring \<Rightarrow> jsstring) \<Rightarrow> jsstring \<Rightarrow> jsstring \<Rightarrow> jsstring" where
  "ultraCleanContent numberToString content filePath =
     (if content = [] then []
      else
        let cleaned = sanitize content
        in if String_includes filePath (js ''.json'') \<or> String_includes filePath (js ''package'')
           then reformatJSON numberToString cleaned filePath
           else cleaned)"

text \<open>\<open>ultraCleanContent\<close> of index.ts: step 1 keeps the carriage return.\<close>

definition sanitize_index :: "jsstring \<Rightarrow> jsstring" where
  "sanitize_index content =
     (let cleaned = filter safeAscii_index content;
          cleaned = filter (\<lambda>c. \<not> controlCharacter c) cleaned
      in normalizeLineEndings cleaned)"

definition ultraCleanContent_index :: "(jsstring \<Rightarrow> jsstring) \<Rightarrow> jsstring \<Rightarrow> jsstring \<Rightarrow> jsstring" where
  "ultraCleanContent_index numberToString content filePath =
     (if content = [] then []
      else
        let cleaned = sanitize_index content
        in if String_includes filePath (js ''.json'') \<or> String_includes filePath (js ''package'')
           then reformatJSON numberToString cleaned filePath
           else cleaned)"

text \<open>
  The sanitization inlined in the older \<open>writeFileToContainer\<close>: two deletions of control
  characters, the line-ending normalization, and a round trip through a UTF-8 buffer, which
  turns every unpaired surrogate into U+FFFD.
\<close>

definition legacyControl1 :: "nat \<Rightarrow> bool" where
  "legacyControl1 c = (c \<le> 8 \<or> c = 11 \<or> c = 12 \<or> (14 \<le> c \<and> c \<le> 31) \<or> c = 127)"

definition legacyControl2 :: "nat \<Rightarrow> bool" where
  "legacyControl2 c = (c \<le> 8 \<or> c = 11 \<or> c = 12 \<or> (14 \<le> c \<and> c \<le> 31) \<or> (127 \<le> c \<and> c \<le> 159))"

fun utf8RoundTrip :: "jsstring \<Rightarrow> jsstring" where
  "utf8RoundTrip [] = []"
| "utf8RoundTrip [c] = (if isLeadSurrogate c \<or> isTrailSurrogate c then [65533] else [c])"
| "utf8RoundTrip (c # d # cs) =
     (if isLeadSurrogate c \<and> isTrailSurrogate d then c # d # utf8RoundTrip cs
      else if isLeadSurrogate c \<or> isTrailSurrogate c then 65533 # utf8RoundTrip (d # cs)
      else c # utf8RoundTrip (d # cs))"

definition sanitizedContent_legacy :: "jsstring \<Rightarrow> jsstring" where
  "sanitizedContent_legacy content =
     (let sanitizedContent = filter (\<lambda>c. \<not> legacyControl1 c) content;
          sanitizedContent = filter (\<lambda>c. \<not> legacyControl2 c) sanitizedContent;
          sanitizedContent = normalizeLineEndings sanitizedContent
      in utf8RoundTrip sanitizedContent)"


section \<open>DockerManager\<close>

text \<open>
  A thrown value: an \<open>Error\<close> object with its message and, for the errors of the Docker
  client, its HTTP status code; \<open>null\<close>; \<open>undefined\<close>; or any other value.
\<close>

datatype error = Error jsstring "nat option" | Null | Undefined | NonError

text \<open>
  \<open>err.statusCode\<close>: reading a property of \<open>null\<close> or \<open>undefined\<close> throws a TypeError
  (with the message of Node.js); of any other value that is not an \<open>Error\<close> of the Docker
  client it is \<open>undefined\<close>. With optional chaining, \<open>err?.statusCode\<close> never throws.
\<close>

fun statusCode :: "error \<Rightarrow> error + nat option" where
  "statusCode (Error message code) = Inr code"
| "statusCode Null =
     Inl (Error (js ''Cannot read properties of null (reading '' @ [39] @ js ''statusCode''
                 @ [39] @ js '')'') None)"
| "statusCode Undefined =
     Inl (Error (js ''Cannot read properties of undefined (reading '' @ [39] @ js ''statusCode''
                 @ [39] @ js '')'') None)"
| "statusCode NonError = Inr None"

text \<open>The options \<open>createUserContainer\<close> passes to \<open>docker.createContainer\<close>.\<close>

record containerOptions =
  Image :: jsstring
  name :: jsstring
  Cmd :: "jsstring list"
  Tty :: bool
  OpenStdin :: bool
  WorkingDir :: jsstring
  User :: jsstring
  Env :: "jsstring list"
  Memory :: nat
  CpuShares :: nat
  AutoRemove :: bool
  Binds :: "jsstring list"

datatype shellStream = ShellStream

text \<open>
  The fields \<open>userContainers\<close> and \<open>userShells\<close> of the class, and the files of the host
  directory that the containers mount at \<open>/workspace\<close>, by archive entry name.
\<close>

record dockerManager =
  userContainers :: "jsstring \<rightharpoonup> containerOptions"
  userShells :: "jsstring \<rightharpoonup> shellStream"
  workspace :: "jsstring \<rightharpoonup> jsstring"

text \<open>
  \<open>path.resolve(process.cwd(), 'user')\<close>, for the absolute, normalized path that
  \<open>process.cwd()\<close> returns.
\<close>

definition hostPath :: "jsstring \<Rightarrow> jsstring" where
  "hostPath cwd = (if cwd = js ''/'' then js ''/user'' else cwd @ js ''/user'')"

definition createOptions :: "jsstring \<Rightarrow> jsstring \<Rightarrow> containerOptions" where
  "createOptions cwd userId =
     \<lparr> Image = js ''user-env:latest'',
       name = js ''user-'' @ userId,
       Cmd = [js ''/bin/bash''],
       Tty = True,
       OpenStdin = True,
       WorkingDir = js ''/workspace'',
       User = js ''0:0'',
       Env = [js ''LANG=C.UTF-8'', js ''LC_ALL=C.UTF-8'', js ''TERM=xterm-256color''],
       Memory = 536870912,
       CpuShares = 512,
       AutoRemove = True,
       Binds = [hostPath cwd @ js '':/workspace:rw''] \<rparr>"

text \<open>
  What the host and the Docker daemon answer during \<open>createUserContainer\<close>: the working
  directory of the server, and the error, if any, of \<open>fs.mkdir\<close>, \<open>createContainer\<close>,
  \<open>container.start\<close> and of attaching the shell.
\<close>

record createRun =
  cwd :: jsstring
  mkdirError :: "error option"
  createError :: "error option"
  startError :: "error option"
  shellError :: "error option"

text \<open>\<open>createPersistentShell\<close>: a failure to attach is logged, not thrown.\<close>

definition createPersistentShell :: "createRun \<Rightarrow> jsstring \<Rightarrow> dockerManager \<Rightarrow> dockerManager" where
  "createPersistentShell run userId s =
     (case userContainers s userId of
        None \<Rightarrow> s
      | Some container \<Rightarrow>
          (case shellError run of
             None \<Rightarrow> s\<lparr>userShells := (userShells s)(userId \<mapsto> ShellStream)\<rparr>
           | Some err \<Rightarrow> s))"

definition createUserContainer :: "createRun \<Rightarrow> jsstring \<Rightarrow> dockerManager \<Rightarrow> error + dockerManager" where
  "createUserContainer run userId s =
     (case mkdirError run of
        Some err \<Rightarrow> Inl err
      | None \<Rightarrow>
         (case createError run of
            Some err \<Rightarrow> Inl err
          | None \<Rightarrow>
             (case startError run of
                Some err \<Rightarrow> Inl err
              | None \<Rightarrow>
                 Inr (createPersistentShell run userId
                       (s\<lparr>userContainers :=
                            (userContainers s)(userId \<mapsto> createOptions (cwd run) userId)\<rparr>)))))"

text \<open>
  \<open>writeFileToContainer\<close> of DockerManager. \<open>archiveError\<close> is what \<open>putArchive\<close> throws,
  if it does; a failing \<open>sync\<close> is caught and logged. The file is recorded under the name
  of its archive entry, with the string that is handed to \<open>Buffer.from\<close> as its content.
\<close>

definition writeFileToContainer ::
  "(jsstring \<Rightarrow> jsstring) \<Rightarrow> error option \<Rightarrow> jsstring \<Rightarrow> jsstring \<Rightarrow> jsstring
     \<Rightarrow> dockerManager \<Rightarrow> error + dockerManager" where
  "writeFileToContainer numberToString archiveError userId filePath content s =
     (case userContainers s userId of
        None \<Rightarrow> Inl (Error (js ''Container not found'') None)
      | Some container \<Rightarrow>
          let fixedPath = fixIncompleteExtension filePath;
              cleanContent = ultraCleanContent numberToString content fixedPath;
              cleanFilePath = (if startsWith fixedPath (js ''/'') then drop 1 fixedPath else fixedPath)
          in case archiveError of
               None \<Rightarrow> Inr (s\<lparr>workspace := (workspace s)(cleanFilePath \<mapsto> cleanContent)\<rparr>)
             | Some (Error message code) \<Rightarrow>
                 Inl (Error (js ''File upload failed: '' @ message) None)
             | Some other \<Rightarrow>
                 Inl (Error (js ''File upload failed: Unknown error'') None))"

text \<open>
  The older \<open>writeFileToContainer\<close> (server/src/Docker/DockerManager.ts): without a
  container it logs and returns.
\<close>

definition writeFileToContainer_legacy ::
  "error option \<Rightarrow> jsstring \<Rightarrow> jsstring \<Rightarrow> jsstring \<Rightarrow> dockerManager \<Rightarrow> error + dockerManager" where
  "writeFileToContainer_legacy archiveError userId filePath content s =
     (case userContainers s userId of
        None \<Rightarrow> Inr s
      | Some container \<Rightarrow>
          let sanitizedContent = sanitizedContent_legacy content;
              cleanFilePath = (if startsWith filePath (js ''/'') then drop 1 filePath else filePath)
          in case archiveError of
               None \<Rightarrow> Inr (s\<lparr>workspace := (workspace s)(cleanFilePath \<mapsto> sanitizedContent)\<rparr>)
             | Some err \<Rightarrow> Inl err)"

text \<open>
  \<open>readFileFromContainer\<close>. The run of \<open>cat\<close> is given by what the daemon answers: the
  call is refused, the stream fails, or it ends after some chunks, and then \<open>exec.inspect\<close>
  fails or reports an exit code.
\<close>

datatype inspectOutcome = InspectError error | ExitCode "int option"

datatype execOutcome = ExecError error | StreamError error | StreamEnd "jsstring list" inspectOutcome

definition pathControl :: "nat \<Rightarrow> bool" where
  "pathControl c = (c \<le> 31 \<or> (127 \<le> c \<and> c \<le> 159))"

definition cleanPath :: "jsstring \<Rightarrow> jsstring" where
  "cleanPath fixedPath =
     filter (\<lambda>c. \<not> pathControl c)
       (if startsWith fixedPath (js ''/'') then drop 1 fixedPath else fixedPath)"

text \<open>The \<open>data\<close> handler: a chunk goes to \<open>error\<close> or to \<open>output\<close>.\<close>

definition errorChunk :: "jsstring \<Rightarrow> bool" where
  "errorChunk data = (String_includes data (js ''No such file or directory'')
                      \<or> String_includes data (js ''cannot access''))"

fun collect :: "jsstring list \<Rightarrow> jsstring \<times> jsstring \<Rightarrow> jsstring \<times> jsstring" where
  "collect [] (output, error) = (output, error)"
| "collect (data # chunks) (output, error) =
     (if errorChunk data then collect chunks (output, error @ data)
      else collect chunks (output @ data, error))"

text \<open>\<open>.replace(/\x1b\[[0-9;]*[a-zA-Z]/g, '')\<close>.\<close>

definition csiParameter :: "nat \<Rightarrow> bool" where
  "csiParameter c = ((48 \<le> c \<and> c \<le> 57) \<or> c = 59)"

definition asciiLetter :: "nat \<Rightarrow> bool" where
  "asciiLetter c = ((97 \<le> c \<and> c \<le> 122) \<or> (65 \<le> c \<and> c \<le> 90))"

function stripAnsi :: "jsstring \<Rightarrow> jsstring" where
  "stripAnsi [] = []"
| "stripAnsi (c # cs) =
     (if c = 27 then
        (case cs of
           [] \<Rightarrow> [c]
         | b # r \<Rightarrow>
             if b = 91 then
               (case dropWhile csiParameter r of
                  [] \<Rightarrow> c # stripAnsi cs
                | l # r' \<Rightarrow> if asciiLetter l then stripAnsi r' else c # stripAnsi cs)
             else c # stripAnsi cs)
      else c # stripAnsi cs)"
  by pat_completeness auto
termination
  apply (relation "measure length")
  apply simp_all
  subgoal for c cs b r l r'
    using length_dropWhile_le[of csiParameter r] by simp
  done

definition readFileFromContainer ::
  "(jsstring \<Rightarrow> jsstring) \<Rightarrow> (jsstring list \<Rightarrow> execOutcome) \<Rightarrow> jsstring \<Rightarrow> jsstring
     \<Rightarrow> dockerManager \<Rightarrow> error + jsstring" where
  "readFileFromContainer numberToString exec userId filePath s =
     (case userContainers s userId of
        None \<Rightarrow> Inl (Error (js ''Container not found'') None)
      | Some container \<Rightarrow>
          let fixedPath = fixIncompleteExtension filePath
          in case exec [js ''cat'', js ''/workspace/'' @ cleanPath fixedPath] of
               ExecError err \<Rightarrow> Inl err
             | StreamError err \<Rightarrow> Inl err
             | StreamEnd chunks inspect \<Rightarrow>
                 (case collect chunks ([], []) of
                    (output, error) \<Rightarrow>
                      (case inspect of
                         InspectError err \<Rightarrow> Inl err
                       | ExitCode code \<Rightarrow>
                           if code = Some 0 \<and> error = []
                           then Inr (ultraCleanContent numberToString (stripAnsi output) filePath)
                           else Inl (Error (js ''File not found: '' @ cleanPath fixedPath) None))))"

text \<open>
  The older \<open>readFileFromContainer\<close> (server/src/Docker/DockerManager.ts): \<open>cat\<close> runs on
  the path as given, without \<open>fixIncompleteExtension\<close>, and the output is returned with
  the escape sequences removed and nothing else (\<open>Remove ANSI codes only\<close>).
\<close>

definition readFileFromContainer_legacy ::
  "(jsstring list \<Rightarrow> execOutcome) \<Rightarrow> jsstring \<Rightarrow> jsstring \<Rightarrow> dockerManager \<Rightarrow> error + jsstring" where
  "readFileFromContainer_legacy exec userId filePath s =
     (case userContainers s userId of
        None \<Rightarrow> Inl (Error (js ''Container not found'') None)
      | Some container \<Rightarrow>
          (case exec [js ''cat'', js ''/workspace/'' @ cleanPath filePath] of
             ExecError err \<Rightarrow> Inl err
           | StreamError err \<Rightarrow> Inl err
           | StreamEnd chunks inspect \<Rightarrow>
               (case collect chunks ([], []) of
                  (output, error) \<Rightarrow>
                    (case inspect of
                       InspectError err \<Rightarrow> Inl err
                     | ExitCode code \<Rightarrow>
                         if code = Some 0 \<and> error = []
                         then Inr (stripAnsi output)
                         else Inl (Error (js ''File not found: '' @ cleanPath filePath) None)))))"

text \<open>
  \<open>deletePath\<close>: \<open>rm\<close> stands for what \<open>rm -rf\<close> does to the files; without a container
  the method returns at once.
\<close>

definition deletePath ::
  "(jsstring \<Rightarrow> (jsstring \<rightharpoonup> jsstring) \<Rightarrow> (jsstring \<rightharpoonup> jsstring)) \<Rightarrow> error option
     \<Rightarrow> jsstring \<Rightarrow> jsstring \<Rightarrow> dockerManager \<Rightarrow> error + dockerManager" where
  "deletePath rm execError userId path s =
     (case userContainers s userId of
        None \<Rightarrow> Inr s
      | Some container \<Rightarrow>
          (case execError of
             Some err \<Rightarrow> Inl err
           | None \<Rightarrow> Inr (s\<lparr>workspace := rm (js ''/workspace/'' @ path) (workspace s)\<rparr>)))"


text \<open>
  The older \<open>cleanupContainer\<close> (server/src/Docker/DockerManager.ts) reads
  \<open>err.statusCode\<close> in its second \<open>catch\<close> block without optional chaining: where that
  throws, the method throws and the container entry stays.
\<close>

definition cleanupContainer_legacy ::
  "bool \<Rightarrow> error option \<Rightarrow> (dockerManager \<Rightarrow> dockerManager) \<Rightarrow> jsstring \<Rightarrow> dockerManager
     \<Rightarrow> error option \<times> dockerManager" where
  "cleanupContainer_legacy shellEndThrows teardownError during userId s =
     (let container = userContainers s userId;
          shell = userShells s userId;
          s1 = (case shell of
                  Some stream \<Rightarrow> s\<lparr>userShells := (userShells s)(userId := None)\<rparr>
                | None \<Rightarrow> s)
      in case container of
           None \<Rightarrow> (None, s1)
         | Some c \<Rightarrow>
            (let s2 = during s1
             in case teardownError of
                  None \<Rightarrow> (None, s2\<lparr>userContainers := (userContainers s2)(userId := None)\<rparr>)
                | Some err \<Rightarrow>
                    (case statusCode err of
                       Inl typeError \<Rightarrow> (Some typeError, s2)
                     | Inr code \<Rightarrow>
                         (None, s2\<lparr>userContainers := (userContainers s2)(userId := None)\<rparr>))))"


section \<open>The file tree\<close>

text \<open>\<open>Array.from(new Set(items))\<close>: the first occurrence of each item, in order.\<close>

fun uniqueItems :: "'a list \<Rightarrow> 'a list" where
  "uniqueItems [] = []"
| "uniqueItems (x # xs) = x # uniqueItems (filter (\<lambda>y. y \<noteq> x) xs)"

text \<open>\<open>item.split('|')\<close>; the result is never empty.\<close>

fun split :: "nat \<Rightarrow> jsstring \<Rightarrow> jsstring list" where
  "split sep [] = [[]]"
| "split sep (c # cs) =
     (if c = sep then [] # split sep cs
      else (case split sep cs of
              [] \<Rightarrow> [[c]]
            | part # parts \<Rightarrow> (c # part) # parts))"

text \<open>
  The values of the tree are \<open>{}\<close> for a directory and \<open>null\<close> for a file. The tree itself
  is a plain object: its own properties, and whether its prototype is \<open>null\<close>. It starts
  with \<open>Object.prototype\<close>, whose accessor \<open>__proto__\<close> makes \<open>tree['__proto__'] = v\<close>
  replace the prototype of \<open>tree\<close> by \<open>v\<close> instead of creating a property; once the
  prototype is \<open>null\<close> the accessor is out of reach and the assignment creates a property
  like any other.
\<close>

datatype treeValue = Directory | File

record treeObject =
  properties :: "(jsstring \<times> treeValue) list"
  nullPrototype :: bool

definition assign :: "jsstring \<Rightarrow> treeValue \<Rightarrow> treeObject \<Rightarrow> treeObject" where
  "assign key v tree =
     (if key = js ''__proto__'' \<and> \<not> nullPrototype tree
      then tree\<lparr>nullPrototype := (v = File)\<rparr>
      else tree\<lparr>properties := defineProperty key v (properties tree)\<rparr>)"

text \<open>
  The body of the \<open>for\<close> loop of \<open>toTree\<close>: \<open>entryOf\<close> is the key and the value the
  body assigns for an item, \<open>None\<close> where it takes one of the two \<open>continue\<close>s
  (\<open>parts[1]\<close> is \<open>undefined\<close> for an item without a bar).
\<close>

definition entryOf :: "jsstring \<Rightarrow> (jsstring \<times> treeValue) option" where
  "entryOf item =
     (if item = [] then None
      else
        (case split 124 item of
           [] \<Rightarrow> None
         | [itemName] \<Rightarrow> None
         | itemName # itemType # rest \<Rightarrow>
             if itemName = [] \<or> itemType = [] then None
             else Some (itemName, if itemType = js ''d'' then Directory else File)))"

definition addItem :: "treeObject \<Rightarrow> jsstring \<Rightarrow> treeObject" where
  "addItem tree item =
     (case entryOf item of
        None \<Rightarrow> tree
      | Some (key, v) \<Rightarrow> assign key v tree)"

definition toTree :: "jsstring list \<Rightarrow> treeObject" where
  "toTree items = foldl addItem \<lparr>properties = [], nullPrototype = False\<rparr> (uniqueItems items)"


section \<open>Evaluation rules\<close>

text \<open>Unfolding sets for evaluating the model on concrete inputs.\<close>

lemmas string_eval = js_def endsWith_def startsWith_def suffix_Cons fixIncompleteExtension_def
  extensionMap_def fixedPath_legacy_def

lemmas json_eval = parse_value.simps parse_elements.simps parse_members.simps js_def JSON_stringify_def QuoteJSONString_def unicodeEscape_def hexDigit_def
  isLeadSurrogate_def isTrailSurrogate_def JSON_parse_def skipWs_def isWhitespace_def isDigit_def
  hexValue_def hex4_def unescape_def parse_int_def parse_digits1_def parse_frac_def parse_exp_def
  parse_number_def indexLess_def isArrayIndex_def defineProperty_def Let_def

lemmas clean_eval = ultraCleanContent_def ultraCleanContent_index_def sanitize_def sanitize_index_def
  safeAscii_def safeAscii_index_def controlCharacter_def normalizeLineEndings_def reformatJSON_def

lemmas tree_eval = js_def toTree_def addItem_def entryOf_def assign_def defineProperty_def
  isArrayIndex_def isDigit_def indexLess_def


section \<open>Session workspaces\<close>

text \<open>
  C1 (as stated, refuted). \<open>createUserContainer\<close> computes the host path from the working
  directory of the server alone: two different session ids get the same bind mount
  \<open>/app/user:/workspace:rw\<close>.
\<close>

theorem createUserContainer_shares_host_directory:
  "js ''s1'' \<noteq> js ''s2''
   \<and> Binds (createOptions (js ''/app'') (js ''s1'')) = [js ''/app/user:/workspace:rw'']
   \<and> Binds (createOptions (js ''/app'') (js ''s2'')) = [js ''/app/user:/workspace:rw'']"
  by (simp add: createOptions_def hostPath_def js_def)

text \<open>
  C1 (amended). Whenever \<open>createUserContainer\<close> succeeds, the container it registers binds
  the one directory \<open>user\<close> under the server's working directory, whatever the session id;
  what is derived from the session id, and differs for different ids, is the container name
  \<open>user-<id>\<close>.
\<close>

theorem createUserContainer_binds_fixed_directory:
  assumes "createUserContainer run u1 s1 = Inr s1'"
    and "createUserContainer run u2 s2 = Inr s2'"
  shows "map_option Binds (userContainers s1' u1) = Some [hostPath (cwd run) @ js '':/workspace:rw'']
       \<and> map_option Binds (userContainers s2' u2) = Some [hostPath (cwd run) @ js '':/workspace:rw'']
       \<and> map_option name (userContainers s1' u1) = Some (js ''user-'' @ u1)
       \<and> (map_option name (userContainers s1' u1) = map_option name (userContainers s2' u2)) = (u1 = u2)"
proof -
  have reg: "userContainers s' u = Some (createOptions (cwd run) u)"
    if "createUserContainer run u s = Inr s'" for u s s'
    using that
    by (auto simp: createUserContainer_def createPersistentShell_def
             split: option.splits)
  from reg[OF assms(1)] reg[OF assms(2)] show ?thesis
    by (simp add: createOptions_def)
qed

theorem createUserContainer_binds_fixed_directory_witness:
  "map_option Binds
     (userContainers
        \<lparr>userContainers = [js ''s1'' \<mapsto> createOptions (js ''/app'') (js ''s1'')],
         userShells = [js ''s1'' \<mapsto> ShellStream], workspace = Map.empty\<rparr> (js ''s1''))
     = Some [js ''/app/user:/workspace:rw'']
   \<and> map_option Binds
     (userContainers
        \<lparr>userContainers = [js ''s2'' \<mapsto> createOptions (js ''/app'') (js ''s2'')],
         userShells = [js ''s2'' \<mapsto> ShellStream], workspace = Map.empty\<rparr> (js ''s2''))
     = Some [js ''/app/user:/workspace:rw'']
   \<and> js ''s1'' \<noteq> js ''s2''"
proof -
  let ?run = "\<lparr>cwd = js ''/app'', mkdirError = None, createError = None, startError = None,
                shellError = None\<rparr>"
  let ?e = "\<lparr>userContainers = Map.empty, userShells = Map.empty, workspace = Map.empty\<rparr>"
  have a: "createUserContainer ?run (js ''s1'') ?e
            = Inr \<lparr>userContainers = [js ''s1'' \<mapsto> createOptions (js ''/app'') (js ''s1'')],
                   userShells = [js ''s1'' \<mapsto> ShellStream], workspace = Map.empty\<rparr>"
    by (simp add: createUserContainer_def createPersistentShell_def)
  have b: "createUserContainer ?run (js ''s2'') ?e
            = Inr \<lparr>userContainers = [js ''s2'' \<mapsto> createOptions (js ''/app'') (js ''s2'')],
                   userShells = [js ''s2'' \<mapsto> ShellStream], workspace = Map.empty\<rparr>"
    by (simp add: createUserContainer_def createPersistentShell_def)
  have c: "hostPath (js ''/app'') @ js '':/workspace:rw'' = js ''/app/user:/workspace:rw''"
    by (simp add: hostPath_def js_def)
  have d: "js ''s1'' \<noteq> js ''s2''" by (simp add: js_def)
  from createUserContainer_binds_fixed_directory[OF a b] c d show ?thesis by simp
qed










text \<open>
  In the older copy a thrown \<open>null\<close> or \<open>undefined\<close> makes the second \<open>catch\<close> block throw a
  TypeError: the method throws and the container entry stays.
\<close>

lemma cleanupContainer_legacy_throws_TypeError:
  "cleanupContainer_legacy False (Some Undefined) (\<lambda>t. t) (js ''s1'')
      \<lparr>userContainers = [js ''s1'' \<mapsto> createOptions (js ''/app'') (js ''s1'')],
       userShells = Map.empty, workspace = Map.empty\<rparr>
     = (Some (Error (js ''Cannot read properties of undefined (reading '' @ [39]
                      @ js ''statusCode'' @ [39] @ js '')'') None),
        \<lparr>userContainers = [js ''s1'' \<mapsto> createOptions (js ''/app'') (js ''s1'')],
         userShells = Map.empty, workspace = Map.empty\<rparr>)"
  by (simp add: cleanupContainer_legacy_def)

text \<open>
  C9 (as stated, refuted). \<open>deletePath\<close> for a session id without a container returns
  normally and does nothing.
\<close>

theorem deletePath_unknown_session_succeeds:
  "deletePath (\<lambda>path files. files) None (js ''ghost'') (js ''main.py'')
     \<lparr>userContainers = Map.empty, userShells = Map.empty, workspace = Map.empty\<rparr>
   = Inr \<lparr>userContainers = Map.empty, userShells = Map.empty, workspace = Map.empty\<rparr>"
  by (simp add: deletePath_def)

text \<open>
  C9 (amended). For a session id without a container, the file write and the file read of
  DockerManager throw \<open>Error('Container not found')\<close>, and \<open>deletePath\<close> returns normally
  without touching anything.
\<close>

theorem unknown_session_outcomes:
  assumes "userContainers s userId = None"
  shows "writeFileToContainer numberToString archiveError userId filePath content s
           = Inl (Error (js ''Container not found'') None)
       \<and> readFileFromContainer numberToString exec userId filePath s
           = Inl (Error (js ''Container not found'') None)
       \<and> deletePath rm execError userId filePath s = Inr s"
  using assms
  by (simp add: writeFileToContainer_def readFileFromContainer_def deletePath_def)

theorem unknown_session_outcomes_witness:
  "writeFileToContainer (\<lambda>l. l) None (js ''ghost'') (js ''main.py'') (js ''print(1)'')
       \<lparr>userContainers = Map.empty, userShells = Map.empty, workspace = Map.empty\<rparr>
     = Inl (Error (js ''Container not found'') None)
   \<and> readFileFromContainer (\<lambda>l. l) (\<lambda>cmd. StreamEnd [] (ExitCode (Some 0))) (js ''ghost'')
       (js ''main.py'')
       \<lparr>userContainers = Map.empty, userShells = Map.empty, workspace = Map.empty\<rparr>
     = Inl (Error (js ''Container not found'') None)
   \<and> deletePath (\<lambda>path files. files) None (js ''ghost'') (js ''main.py'')
       \<lparr>userContainers = Map.empty, userShells = Map.empty, workspace = Map.empty\<rparr>
     = Inr \<lparr>userContainers = Map.empty, userShells = Map.empty, workspace = Map.empty\<rparr>"
  using unknown_session_outcomes[of
      "\<lparr>userContainers = Map.empty, userShells = Map.empty, workspace = Map.empty\<rparr>"
      "js ''ghost''" "\<lambda>l. l" None "js ''main.py''" "js ''print(1)''"
      "\<lambda>cmd. StreamEnd [] (ExitCode (Some 0))" "\<lambda>path files. files" None]
  by simp

text \<open>
  The older \<open>writeFileToContainer\<close> does not throw either: without a container it logs
  the error and returns as after a successful write.
\<close>

lemma writeFileToContainer_legacy_unknown_session:
  "userContainers s userId = None \<Longrightarrow>
     writeFileToContainer_legacy archiveError userId filePath content s = Inr s"
  by (simp add: writeFileToContainer_legacy_def)


section \<open>Path repair: results\<close>

text \<open>
  C2. The path \<open>app.test.t\<close> ends in the fragment \<open>.t\<close>, whose canonical extension is
  \<open>.ts\<close>. The first occurrence of \<open>.t\<close> is the one inside \<open>.test\<close>, and that is the one
  \<open>replace\<close> rewrites: the result is \<open>app.tsest.t\<close>, which does not end in \<open>.ts\<close>. The
  older handler, which appends the missing letter, repairs \<open>x.test.j\<close> to \<open>x.test.js\<close>.
\<close>

theorem fixIncompleteExtension_rewrites_first_occurrence:
  "endsWith (js ''app.test.t'') (js ''.t'')
   \<and> fixIncompleteExtension (js ''app.test.t'') = js ''app.tsest.t''
   \<and> \<not> endsWith (fixIncompleteExtension (js ''app.test.t'')) (js ''.ts'')
   \<and> fixedPath_legacy (js ''x.test.j'') = js ''x.test.js''"
  by (simp add: string_eval)

text \<open>
  The other half of the claim holds: no fragment of the table is a suffix of a canonical
  extension or the other way round, so a path that ends in a canonical extension is
  returned as it is.
\<close>

lemma extension_tables_apart:
  "\<forall>(i, c) \<in> set extensionMap. \<forall>(i', c') \<in> set extensionMap.
      \<not> suffix (js i') (js c) \<and> \<not> suffix (js c) (js i')"
  by (simp add: string_eval)

lemma fixLoop_no_fragment:
  "\<forall>(i, c) \<in> set entries. \<not> endsWith p (js i) \<Longrightarrow> fixLoop entries p = p"
  by (induction entries) auto

lemma fixIncompleteExtension_canonical_unchanged:
  assumes "(i, c) \<in> set extensionMap" and "endsWith p (js c)"
  shows "fixIncompleteExtension p = p"
proof -
  have "\<not> endsWith p (js i')" if "(i', c') \<in> set extensionMap" for i' c'
  proof
    assume "endsWith p (js i')"
    with assms(2) have "suffix (js i') (js c) \<or> suffix (js c) (js i')"
      unfolding endsWith_def by (metis suffix_same_cases)
    with extension_tables_apart assms(1) that show False by fastforce
  qed
  then show ?thesis
    unfolding fixIncompleteExtension_def by (intro fixLoop_no_fragment) auto
qed


section \<open>The file tree: results\<close>

text \<open>The example of the specification: the duplicate is dropped, one key per name.\<close>

lemma toTree_example:
  "properties (toTree [js ''a.txt|f'', js ''b|d'', js ''a.txt|f''])
     = [(js ''a.txt'', File), (js ''b'', Directory)]"
  by (simp add: tree_eval)

text \<open>
  C8. A workspace file called \<open>__proto__\<close> is listed as the raw entry \<open>__proto__|f\<close>, and
  the loop body does reach the assignment for it, but the assignment goes to the accessor
  of \<open>Object.prototype\<close>: the tree gets no key for that name, alone or among other
  entries.
\<close>

theorem toTree_drops_proto_entry:
  "entryOf (js ''__proto__|f'') = Some (js ''__proto__'', File)
   \<and> properties (toTree [js ''__proto__|f'']) = []
   \<and> properties (toTree [js ''a.txt|f'', js ''__proto__|f'', js ''b|d''])
        = [(js ''a.txt'', File), (js ''b'', Directory)]"
proof -
  have a: "entryOf (js ''__proto__|f'') = Some (js ''__proto__'', File)"
    by (simp add: js_def entryOf_def)
  have b: "properties (toTree [js ''__proto__|f'']) = []"
    by (simp add: tree_eval)
  have c: "properties (toTree [js ''a.txt|f'', js ''__proto__|f'', js ''b|d''])
        = [(js ''a.txt'', File), (js ''b'', Directory)]"
    by (simp add: tree_eval)
  from a b c show ?thesis by blast
qed

text \<open>
  For every other name the claim holds. The keys of the tree are distinct, and the value
  under a key other than \<open>__proto__\<close> is the one of the last raw entry (duplicates
  removed) that names it: \<open>Directory\<close> for kind \<open>d\<close>, \<open>File\<close> for any other kind.
\<close>

lemma map_of_replace:
  "map_of (map (\<lambda>(k', v'). if k' = k then (k', v) else (k', v')) ps) x
     = (if x = k then map_option (\<lambda>_. v) (map_of ps x) else map_of ps x)"
proof (induction ps)
  case Nil
  show ?case by simp
next
  case (Cons p ps)
  then show ?case by (cases p) auto
qed

lemma set_insertIndexed: "set (insertIndexed k v ps) = insert (k, v) (set ps)"
  by (induction k v ps rule: insertIndexed.induct) (simp_all add: insert_commute)

lemma map_of_insertIndexed:
  "k \<notin> fst ` set ps \<Longrightarrow>
     map_of (insertIndexed k v ps) x = (if x = k then Some v else map_of ps x)"
  by (induction k v ps rule: insertIndexed.induct) auto

lemma map_of_append_new:
  "k \<notin> fst ` set ps \<Longrightarrow> map_of (ps @ [(k, v)]) x = (if x = k then Some v else map_of ps x)"
proof (induction ps)
  case Nil
  show ?case by simp
next
  case (Cons p ps)
  then show ?case by (cases p) (auto simp del: map_of_append)
qed

lemma map_of_present: "k \<in> fst ` set ps \<Longrightarrow> \<exists>y. map_of ps k = Some y"
  by (induction ps) auto

lemma map_of_defineProperty:
  "map_of (defineProperty k v ps) x = (if x = k then Some v else map_of ps x)"
proof (cases "k \<in> fst ` set ps")
  case True
  from map_of_present[OF True] obtain y where "map_of ps k = Some y" ..
  with True show ?thesis
    by (simp add: defineProperty_def map_of_replace)
next
  case False
  then show ?thesis
    by (simp add: defineProperty_def map_of_insertIndexed map_of_append_new del: map_of_append)
qed

lemma map_fst_replace:
  "map (fst \<circ> (\<lambda>(k', v'). if k' = k then (k', v) else (k', v'))) ps = map fst ps"
  by (induction ps) (simp_all split: prod.splits)

lemma distinct_insertIndexed:
  "distinct (map fst ps) \<Longrightarrow> k \<notin> fst ` set ps \<Longrightarrow> distinct (map fst (insertIndexed k v ps))"
  by (induction ps) (auto simp: set_insertIndexed)

lemma distinct_defineProperty:
  "distinct (map fst ps) \<Longrightarrow> distinct (map fst (defineProperty k v ps))"
  by (simp add: defineProperty_def map_fst_replace distinct_insertIndexed)

lemma distinct_addItem:
  "distinct (map fst (properties t)) \<Longrightarrow> distinct (map fst (properties (addItem t item)))"
  by (simp add: addItem_def assign_def distinct_defineProperty split: option.splits)

lemma distinct_foldl_addItem:
  "distinct (map fst (properties t)) \<Longrightarrow> distinct (map fst (properties (foldl addItem t xs)))"
  by (induction xs arbitrary: t) (simp_all add: distinct_addItem)

lemma toTree_keys_distinct: "distinct (map fst (properties (toTree items)))"
  by (simp add: toTree_def distinct_foldl_addItem)

lemma lookup_addItem:
  "k \<noteq> js ''__proto__'' \<Longrightarrow>
   map_of (properties (addItem t item)) k
     = (case entryOf item of
          None \<Rightarrow> map_of (properties t) k
        | Some (k', v) \<Rightarrow> if k = k' then Some v else map_of (properties t) k)"
  by (simp add: addItem_def assign_def map_of_defineProperty split: option.splits)

lemma lookup_foldl_addItem:
  "k \<noteq> js ''__proto__'' \<Longrightarrow>
   map_of (properties (foldl addItem t xs)) k
     = (case map_of (rev (List.map_filter entryOf xs)) k of
          None \<Rightarrow> map_of (properties t) k
        | Some v \<Rightarrow> Some v)"
proof (induction xs arbitrary: t)
  case Nil
  then show ?case by (simp add: List.map_filter_simps)
next
  case (Cons x xs)
  show ?case
    using Cons.prems
    by (simp add: Cons.IH[OF Cons.prems] lookup_addItem List.map_filter_simps map_add_def
             split: option.splits)
qed

lemma toTree_lookup:
  "k \<noteq> js ''__proto__'' \<Longrightarrow>
   map_of (properties (toTree items)) k = map_of (rev (List.map_filter entryOf (uniqueItems items))) k"
  by (simp add: toTree_def lookup_foldl_addItem split: option.splits)


section \<open>Reading a file: results\<close>

lemma errorChunk_nonempty: "errorChunk d \<Longrightarrow> d \<noteq> []"
  by (auto simp: errorChunk_def js_def)

lemma collect_eq:
  "collect chunks (out, err)
     = (out @ concat (filter (\<lambda>d. \<not> errorChunk d) chunks), err @ concat (filter errorChunk chunks))"
  by (induction chunks arbitrary: out err) simp_all

lemma no_error_text:
  "(concat (filter errorChunk chunks) = []) = (\<forall>d \<in> set chunks. \<not> errorChunk d)"
  by (induction chunks) (auto dest: errorChunk_nonempty)

lemma all_output:
  "\<forall>d \<in> set chunks. \<not> errorChunk d \<Longrightarrow> filter (\<lambda>d. \<not> errorChunk d) chunks = chunks"
  by (induction chunks) auto

text \<open>
  C7 (as stated, refuted). \<open>cat\<close> exits with code 0, and the file's text contains the
  phrase \<open>No such file or directory\<close>: the chunk is counted as an error message and the
  read is rejected with \<open>File not found\<close>.
\<close>

theorem readFileFromContainer_rejects_exit_0:
  "readFileFromContainer (\<lambda>l. l)
     (\<lambda>cmd. StreamEnd [js ''see: No such file or directory''] (ExitCode (Some 0)))
     (js ''s1'') (js ''notes.txt'')
     \<lparr>userContainers = [js ''s1'' \<mapsto> createOptions (js ''/app'') (js ''s1'')],
      userShells = Map.empty, workspace = Map.empty\<rparr>
   = Inl (Error (js ''File not found: notes.txt'') None)"
  by (simp add: readFileFromContainer_def string_eval cleanPath_def pathControl_def errorChunk_def)

text \<open>
  C7 (amended). For a session with a container, \<open>readFileFromContainer\<close> runs \<open>cat\<close> and
  concatenates the chunks of its output. When the stream ends and the exit code is
  reported, the read resolves exactly when the exit code is 0 and no chunk contains
  \<open>No such file or directory\<close> or \<open>cannot access\<close>; every other outcome is the one error
  \<open>File not found\<close>: the exit code and the text of the output are both consulted, always,
  and failures are not told apart. The newer copy runs \<open>cat\<close> on the path repaired by
  \<open>fixIncompleteExtension\<close>, as its write does, and returns the text with the escape
  sequences \<open>ESC [ ... letter\<close> removed and passed through \<open>ultraCleanContent\<close>. The
  older copy runs \<open>cat\<close> on the path as given and returns the text with the escape
  sequences removed and nothing else.
\<close>

theorem readFileFromContainer_outcome:
  assumes "userContainers s userId = Some container"
    and "exec [js ''cat'', js ''/workspace/'' @ cleanPath (fixIncompleteExtension filePath)]
           = StreamEnd chunks (ExitCode code)"
    and "exec_legacy [js ''cat'', js ''/workspace/'' @ cleanPath filePath]
           = StreamEnd chunks_legacy (ExitCode code_legacy)"
  shows "readFileFromContainer numberToString exec userId filePath s
     = (if code = Some 0 \<and> (\<forall>data \<in> set chunks. \<not> errorChunk data)
        then Inr (ultraCleanContent numberToString (stripAnsi (concat chunks)) filePath)
        else Inl (Error (js ''File not found: '' @ cleanPath (fixIncompleteExtension filePath)) None))
   \<and> readFileFromContainer_legacy exec_legacy userId filePath s
     = (if code_legacy = Some 0 \<and> (\<forall>data \<in> set chunks_legacy. \<not> errorChunk data)
        then Inr (stripAnsi (concat chunks_legacy))
        else Inl (Error (js ''File not found: '' @ cleanPath filePath) None))"
proof -
  have new: "readFileFromContainer numberToString exec userId filePath s
     = (if code = Some 0 \<and> (\<forall>data \<in> set chunks. \<not> errorChunk data)
        then Inr (ultraCleanContent numberToString (stripAnsi (concat chunks)) filePath)
        else Inl (Error (js ''File not found: '' @ cleanPath (fixIncompleteExtension filePath)) None))"
    using assms(1,2)
    by (auto simp: readFileFromContainer_def collect_eq all_output dest: errorChunk_nonempty)
  have old: "readFileFromContainer_legacy exec_legacy userId filePath s
     = (if code_legacy = Some 0 \<and> (\<forall>data \<in> set chunks_legacy. \<not> errorChunk data)
        then Inr (stripAnsi (concat chunks_legacy))
        else Inl (Error (js ''File not found: '' @ cleanPath filePath) None))"
    using assms(1,3)
    by (auto simp: readFileFromContainer_legacy_def collect_eq all_output dest: errorChunk_nonempty)
  from new old show ?thesis by (rule conjI)
qed

theorem readFileFromContainer_outcome_witness:
  "readFileFromContainer (\<lambda>l. l)
     (\<lambda>cmd. StreamEnd [js ''print'', [27] @ js ''[0m(1)''] (ExitCode (Some 0)))
     (js ''s1'') (js ''main.py'')
     \<lparr>userContainers = [js ''s1'' \<mapsto> createOptions (js ''/app'') (js ''s1'')],
      userShells = Map.empty, workspace = Map.empty\<rparr>
   = Inr (js ''print(1)'')
   \<and> readFileFromContainer_legacy
     (\<lambda>cmd. StreamEnd [js ''print'', [27] @ js ''[0m(1)''] (ExitCode (Some 0)))
     (js ''s1'') (js ''main.py'')
     \<lparr>userContainers = [js ''s1'' \<mapsto> createOptions (js ''/app'') (js ''s1'')],
      userShells = Map.empty, workspace = Map.empty\<rparr>
   = Inr (js ''print(1)'')"
proof -
  let ?s = "\<lparr>userContainers = [js ''s1'' \<mapsto> createOptions (js ''/app'') (js ''s1'')],
      userShells = Map.empty, workspace = Map.empty\<rparr>"
  let ?exec = "\<lambda>cmd :: jsstring list. StreamEnd [js ''print'', [27] @ js ''[0m(1)''] (ExitCode (Some 0))"
  have a: "userContainers ?s (js ''s1'') = Some (createOptions (js ''/app'') (js ''s1''))"
    by simp
  have b: "?exec [js ''cat'', js ''/workspace/'' @ cleanPath (fixIncompleteExtension (js ''main.py''))]
             = StreamEnd [js ''print'', [27] @ js ''[0m(1)''] (ExitCode (Some 0))"
    by simp
  have b': "?exec [js ''cat'', js ''/workspace/'' @ cleanPath (js ''main.py'')]
             = StreamEnd [js ''print'', [27] @ js ''[0m(1)''] (ExitCode (Some 0))"
    by simp
  have c: "\<not> errorChunk (js ''print'')" "\<not> errorChunk ([27] @ js ''[0m(1)'')"
    by (simp_all add: errorChunk_def js_def)
  have d: "stripAnsi (concat [js ''print'', [27] @ js ''[0m(1)'']) = js ''print(1)''"
    by (simp add: js_def csiParameter_def asciiLetter_def)
  have e: "ultraCleanContent (\<lambda>l. l) (js ''print(1)'') (js ''main.py'') = js ''print(1)''"
    by (simp add: clean_eval js_def)
  from readFileFromContainer_outcome[OF a b b', of "\<lambda>l. l"] c d e show ?thesis
    by simp
qed

text \<open>
  Where the two copies differ. For the path \<open>a.j\<close> the newer copy reads \<open>a.js\<close> and the
  older copy reads \<open>a.j\<close>; and a character outside the whitelist in the file is deleted by
  the newer copy and returned by the older.
\<close>

lemma readFileFromContainer_copies_differ:
  "readFileFromContainer (\<lambda>l. l)
     (\<lambda>cmd. if cmd = [js ''cat'', js ''/workspace/a.js'']
             then StreamEnd [[104, 233]] (ExitCode (Some 0))
             else StreamEnd [js ''cat: No such file or directory''] (ExitCode (Some 1)))
     (js ''s1'') (js ''a.j'')
     \<lparr>userContainers = [js ''s1'' \<mapsto> createOptions (js ''/app'') (js ''s1'')],
      userShells = Map.empty, workspace = Map.empty\<rparr>
   = Inr [104]
   \<and> readFileFromContainer_legacy
     (\<lambda>cmd. if cmd = [js ''cat'', js ''/workspace/a.js'']
             then StreamEnd [[104, 233]] (ExitCode (Some 0))
             else StreamEnd [js ''cat: No such file or directory''] (ExitCode (Some 1)))
     (js ''s1'') (js ''a.j'')
     \<lparr>userContainers = [js ''s1'' \<mapsto> createOptions (js ''/app'') (js ''s1'')],
      userShells = Map.empty, workspace = Map.empty\<rparr>
   = Inl (Error (js ''File not found: a.j'') None)
   \<and> readFileFromContainer_legacy
     (\<lambda>cmd. StreamEnd [[104, 233]] (ExitCode (Some 0)))
     (js ''s1'') (js ''a.js'')
     \<lparr>userContainers = [js ''s1'' \<mapsto> createOptions (js ''/app'') (js ''s1'')],
      userShells = Map.empty, workspace = Map.empty\<rparr>
   = Inr [104, 233]"
proof -
  have p: "fixIncompleteExtension (js ''a.j'') = js ''a.js''"
    by (simp add: string_eval)
  have q: "cleanPath (js ''a.js'') = js ''a.js''" "cleanPath (js ''a.j'') = js ''a.j''"
    by (simp_all add: cleanPath_def pathControl_def string_eval)
  have e: "errorChunk (js ''cat: No such file or directory'')"
    by (simp add: errorChunk_def js_def)
  have n: "\<not> errorChunk [104, 233]"
    by (simp add: errorChunk_def js_def)
  have u: "ultraCleanContent (\<lambda>l. l) [104, 233] (js ''a.j'') = [104]"
    by (simp add: clean_eval js_def)
  have j: "js ''/workspace/'' @ js ''a.js'' = js ''/workspace/a.js''"
    "js ''/workspace/'' @ js ''a.j'' \<noteq> js ''/workspace/a.js''"
    "js ''File not found: '' @ js ''a.j'' = js ''File not found: a.j''"
    by (simp_all add: js_def)
  show ?thesis
    by (simp add: readFileFromContainer_def readFileFromContainer_legacy_def p q e n u j)
qed

text \<open>Without a container the older copy throws as the newer copy does.\<close>

lemma readFileFromContainer_legacy_unknown_session:
  "userContainers s userId = None \<Longrightarrow>
     readFileFromContainer_legacy exec userId filePath s = Inl (Error (js ''Container not found'') None)"
  by (simp add: readFileFromContainer_legacy_def)


section \<open>JSON.parse and JSON.stringify: results\<close>

lemma skipWs_Cons_shorter: "skipWs s = c # r \<Longrightarrow> length r < length s"
  using length_dropWhile_le[of isWhitespace s] by (simp add: skipWs_def)

lemma parse_chars_consumes: "parse_chars s = Some (str, r) \<Longrightarrow> length r < length s"
proof (induction s arbitrary: str r rule: parse_chars.induct)
  case 1
  then show ?case by simp
next
  case (2 c cs)
  show ?case
  proof (cases "c = 34")
    case True
    with 2(4) show ?thesis by simp
  next
    case False
    show ?thesis
      using 2 False
      by (auto split: if_splits list.splits option.splits; fastforce)
  qed
qed

lemma parse_digits1_consumes: "parse_digits1 s = Some (ds, r) \<Longrightarrow> length r \<le> length s"
  using length_dropWhile_le[of isDigit s] by (auto simp: parse_digits1_def split: if_splits)

lemma parse_int_consumes: "parse_int s = Some (i, r) \<Longrightarrow> length r < length s"
  by (auto simp: parse_int_def split: list.splits if_splits
           intro: le_imp_less_Suc length_dropWhile_le)

lemma parse_frac_consumes: "parse_frac s = Some (f, r) \<Longrightarrow> length r \<le> length s"
  by (auto simp: parse_frac_def split: list.splits if_splits
           dest!: parse_digits1_consumes)

lemma parse_exp_consumes: "parse_exp s = Some (e, r) \<Longrightarrow> length r \<le> length s"
  by (auto simp: parse_exp_def split: list.splits if_splits
           dest!: parse_digits1_consumes)

lemma parse_number_consumes: "parse_number s = Some (l, r) \<Longrightarrow> length r < length s"
  by (auto simp: parse_number_def Let_def split: list.splits if_splits option.splits prod.splits
           dest!: parse_int_consumes parse_frac_consumes parse_exp_consumes)

lemma drop_literal_shorter: "prefix p s \<Longrightarrow> p \<noteq> [] \<Longrightarrow> length (drop (length p) s) < length s"
  by (cases s) (auto simp: prefix_def)

lemma parse_consumes:
  shows "parse_value s = Some (v, r) \<Longrightarrow> length r < length s"
    and "parse_elements acc s' = Some (vs, r') \<Longrightarrow> length r' < length s'"
    and "parse_members macc s'' = Some (ms, r'') \<Longrightarrow> length r'' < length s''"
proof (induction s and acc s' and macc s'' arbitrary: v r and vs r' and ms r''
       rule: parse_value_parse_elements_parse_members.induct)
  case (1 s)
  from "1.prems" obtain c t where st: "skipWs s = c # t"
    by (subst (asm) parse_value.simps) (auto split: list.splits)
  note len = skipWs_Cons_shorter[OF st]
  consider (obj) "c = 123" | (arr) "c \<noteq> 123" "c = 91" | (str) "c \<noteq> 123" "c \<noteq> 91" "c = 34"
    | (other) "c \<noteq> 123" "c \<noteq> 91" "c \<noteq> 34" by blast
  then show ?case
  proof cases
    case obj
    from "1.prems" st obj obtain d t' where dt: "skipWs t = d # t'"
      by (subst (asm) parse_value.simps) (auto split: list.splits)
    note len2 = skipWs_Cons_shorter[OF dt]
    show ?thesis
    proof (cases "d = 125")
      case True
      with "1.prems" st obj dt have "r = t'"
        by (subst (asm) parse_value.simps) simp
      with len len2 show ?thesis by simp
    next
      case False
      with "1.prems" st obj dt obtain ms where "parse_members [] (d # t') = Some (ms, r)"
        by (subst (asm) parse_value.simps) auto
      from "1.IH"(1)[OF st obj dt False this] len len2 show ?thesis by simp
    qed
  next
    case arr
    from "1.prems" st arr obtain d t' where dt: "skipWs t = d # t'"
      by (subst (asm) parse_value.simps) (auto split: list.splits)
    note len2 = skipWs_Cons_shorter[OF dt]
    show ?thesis
    proof (cases "d = 93")
      case True
      with "1.prems" st arr dt have "r = t'"
        by (subst (asm) parse_value.simps) simp
      with len len2 show ?thesis by simp
    next
      case False
      with "1.prems" st arr dt obtain vs where "parse_elements [] (d # t') = Some (vs, r)"
        by (subst (asm) parse_value.simps) auto
      from "1.IH"(2)[OF st arr(1) arr(2) dt False this] len len2 show ?thesis by simp
    qed
  next
    case str
    with "1.prems" st obtain x where "parse_chars t = Some (x, r)"
      by (subst (asm) parse_value.simps) auto
    from parse_chars_consumes[OF this] len show ?thesis by simp
  next
    case other
    have "length r < length (c # t)"
      using "1.prems" st other
      apply (subst (asm) parse_value.simps)
      apply (simp split: if_splits)
         apply (auto dest!: parse_number_consumes simp: js_def)
      done
    with len show ?thesis by simp
  qed
next
  case (2 acc s)
  from "2.prems" obtain v r where pv: "parse_value s = Some (v, r)"
    by (subst (asm) parse_elements.simps) (auto split: option.splits)
  from "2.prems" pv have g: "length r < length s"
    by (subst (asm) parse_elements.simps) (auto split: if_splits)
  from "2.prems" pv g obtain c t where st: "skipWs r = c # t"
    by (subst (asm) parse_elements.simps) (auto split: list.splits)
  note len = skipWs_Cons_shorter[OF st]
  show ?case
  proof (cases "c = 44")
    case True
    with "2.prems" pv g st have "parse_elements (acc @ [v]) t = Some (vs, r')"
      by (subst (asm) parse_elements.simps) simp
    from "2.IH"(2)[OF pv refl g st True this] len g show ?thesis by simp
  next
    case False
    with "2.prems" pv g st have "r' = t"
      by (subst (asm) parse_elements.simps) (auto split: if_splits)
    with len g show ?thesis by simp
  qed
next
  case (3 acc s)
  from "3.prems" obtain q t where st: "skipWs s = q # t"
    by (subst (asm) parse_members.simps) (auto split: list.splits)
  from "3.prems" st have q: "\<not> q \<noteq> 34"
    by (subst (asm) parse_members.simps) (auto split: if_splits)
  from "3.prems" st q obtain k r1 where pc: "parse_chars t = Some (k, r1)"
    by (subst (asm) parse_members.simps) (auto split: option.splits)
  from "3.prems" st q pc obtain colon r2 where st2: "skipWs r1 = colon # r2"
    by (subst (asm) parse_members.simps) (auto split: list.splits)
  from "3.prems" st q pc st2 have g: "\<not> (colon \<noteq> 58 \<or> \<not> length r2 < length s)"
    by (subst (asm) parse_members.simps) (auto split: if_splits)
  from "3.prems" st q pc st2 g obtain v r3 where pv: "parse_value r2 = Some (v, r3)"
    by (subst (asm) parse_members.simps) (auto split: option.splits)
  from "3.prems" st q pc st2 g pv have g2: "length r3 < length r2"
    by (subst (asm) parse_members.simps) (auto split: if_splits)
  from "3.prems" st q pc st2 g pv g2 obtain c r4 where st3: "skipWs r3 = c # r4"
    by (subst (asm) parse_members.simps) (auto split: list.splits)
  note len = skipWs_Cons_shorter[OF st3]
  show ?case
  proof (cases "c = 44")
    case True
    with "3.prems" st q pc st2 g pv g2 st3
    have "parse_members (defineProperty k v acc) r4 = Some (ms, r'')"
      by (subst (asm) parse_members.simps) simp
    from "3.IH"(2)[OF st q pc refl st2 g pv refl g2 st3 True this] len g g2 show ?thesis by simp
  next
    case False
    with "3.prems" st q pc st2 g pv g2 st3 have "r'' = r4"
      by (subst (asm) parse_members.simps) (auto split: if_splits)
    with len g g2 show ?thesis by simp
  qed
qed

text \<open>The recursive calls without the length tests.\<close>

lemma parse_elements_unfold:
  "parse_elements acc s =
     (case parse_value s of
        None \<Rightarrow> None
      | Some (v, r) \<Rightarrow>
          (case skipWs r of
             [] \<Rightarrow> None
           | c # r' \<Rightarrow> if c = 44 then parse_elements (acc @ [v]) r'
                        else if c = 93 then Some (acc @ [v], r')
                        else None))"
proof (cases "parse_value s")
  case None
  then show ?thesis by (simp add: parse_elements.simps[of acc s])
next
  case (Some p)
  obtain v r where p: "p = (v, r)" by (cases p)
  from parse_consumes(1)[of s v r] Some p have "length r < length s" by simp
  with Some p show ?thesis by (simp add: parse_elements.simps[of acc s])
qed

lemma parse_members_unfold:
  "parse_members acc s =
     (case skipWs s of
        [] \<Rightarrow> None
      | q # r \<Rightarrow>
          if q \<noteq> 34 then None
          else
            (case parse_chars r of
               None \<Rightarrow> None
             | Some (k, r1) \<Rightarrow>
                (case skipWs r1 of
                   [] \<Rightarrow> None
                 | colon # r2 \<Rightarrow>
                     if colon \<noteq> 58 then None
                     else
                       (case parse_value r2 of
                          None \<Rightarrow> None
                        | Some (v, r3) \<Rightarrow>
                            (case skipWs r3 of
                               [] \<Rightarrow> None
                             | c # r4 \<Rightarrow>
                                 if c = 44 then parse_members (defineProperty k v acc) r4
                                 else if c = 125 then Some (defineProperty k v acc, r4)
                                 else None)))))"
proof -
  have l: "(length r2 < length s) = True"
    if "skipWs s = q # r" "parse_chars r = Some (k, r1)" "skipWs r1 = colon # r2"
    for q r k r1 colon r2
    using skipWs_Cons_shorter[OF that(1)] parse_chars_consumes[OF that(2)]
      skipWs_Cons_shorter[OF that(3)] by simp
  have c: "(length r3 < length r2) = True" if "parse_value r2 = Some (v, r3)" for r2 v r3
    using parse_consumes(1)[OF that] by simp
  show ?thesis
    by (simp add: parse_members.simps[of acc s] l c split: list.split option.split)
qed

lemma skipWs_idem: "skipWs (skipWs s) = skipWs s"
  by (induction s) (auto simp: skipWs_def)

lemma parse_value_skipWs: "parse_value (skipWs s) = parse_value s"
  by (simp add: parse_value.simps[of "skipWs s"] parse_value.simps[of s] skipWs_idem)

lemma parse_elements_skipWs: "parse_elements acc (skipWs s) = parse_elements acc s"
  by (simp add: parse_elements_unfold[of acc "skipWs s"] parse_elements_unfold[of acc s]
        parse_value_skipWs)

lemma parse_members_skipWs: "parse_members acc (skipWs s) = parse_members acc s"
  by (simp add: parse_members_unfold[of acc "skipWs s"] parse_members_unfold[of acc s]
        skipWs_idem)

text \<open>A quoted string is read back as the string.\<close>

lemma hexValue_hexDigit: "d < 16 \<Longrightarrow> hexValue (hexDigit d) = Some d"
  by (auto simp: hexValue_def hexDigit_def)

lemma hex4_hexDigits:
  "a < 16 \<Longrightarrow> b < 16 \<Longrightarrow> c < 16 \<Longrightarrow> d < 16 \<Longrightarrow>
     hex4 (hexDigit a) (hexDigit b) (hexDigit c) (hexDigit d) = Some (4096 * a + 256 * b + 16 * c + d)"
  by (simp add: hex4_def hexValue_hexDigit)

lemma hex_positions:
  "c = 16 * x1 + d0 \<Longrightarrow> x1 = 16 * x2 + d1 \<Longrightarrow> x2 = 16 * x3 + d2 \<Longrightarrow>
     4096 * x3 + 256 * d2 + 16 * d1 + d0 = (c::nat)"
  by simp

lemma parse_chars_unicodeEscape:
  assumes "c < 65536"
  shows "parse_chars (unicodeEscape c @ s) = map_option (\<lambda>(str, rest). (c # str, rest)) (parse_chars s)"
proof -
  have e1: "c = 16 * (c div 16) + c mod 16" by simp
  have "c div 16 div 16 = c div 256" by (simp add: div_mult2_eq[symmetric])
  then have e2: "c div 16 = 16 * (c div 256) + c div 16 mod 16"
    using mult_div_mod_eq[of 16 "c div 16"] by simp
  have "c div 256 div 16 = c div 4096" by (simp add: div_mult2_eq[symmetric])
  then have e3: "c div 256 = 16 * (c div 4096) + c div 256 mod 16"
    using mult_div_mod_eq[of 16 "c div 256"] by simp
  from assms have lt: "c div 4096 < 16"
    by (simp add: less_mult_imp_div_less)
  then have e4: "c div 4096 mod 16 = c div 4096" by simp
  have m: "c div 256 mod 16 < 16" "c div 16 mod 16 < 16" "c mod 16 < 16" by simp_all
  have h: "hex4 (hexDigit (c div 4096 mod 16)) (hexDigit (c div 256 mod 16))
              (hexDigit (c div 16 mod 16)) (hexDigit (c mod 16)) = Some c"
    unfolding e4 hex4_hexDigits[OF lt m] hex_positions[OF e1 e2 e3] ..
  have "parse_chars (92 # 117 # h1 # h2 # h3 # h4 # s)
          = (case hex4 h1 h2 h3 h4 of
               None \<Rightarrow> None
             | Some u \<Rightarrow> map_option (\<lambda>(str, rest). (u # str, rest)) (parse_chars s))"
    for h1 h2 h3 h4
    by simp
  from this[of "hexDigit (c div 4096 mod 16)" "hexDigit (c div 256 mod 16)"
      "hexDigit (c div 16 mod 16)" "hexDigit (c mod 16)"] h
  show ?thesis
    unfolding unicodeEscape_def by (simp only: append_Cons append_Nil option.case)
qed

lemma parse_chars_raw:
  "32 \<le> c \<Longrightarrow> c \<noteq> 34 \<Longrightarrow> c \<noteq> 92 \<Longrightarrow>
     parse_chars (c # s) = map_option (\<lambda>(str, rest). (c # str, rest)) (parse_chars s)"
  by simp

lemma parse_chars_short:
  "parse_chars (92 # e # s)
     = (if e = 117 then parse_chars (92 # e # s)
        else case unescape e of
               None \<Rightarrow> None
             | Some u \<Rightarrow> map_option (\<lambda>(str, rest). (u # str, rest)) (parse_chars s))"
  by simp

lemma parse_chars_quoteChars: "parse_chars (quoteChars s @ 34 # rest) = Some (s, rest)"
proof (induction s rule: quoteChars.induct)
  case 1
  show ?case by simp
next
  case (2 c cs)
  note simps_del = parse_chars.simps quoteChars.simps
  consider (short) "c = 8 \<or> c = 9 \<or> c = 10 \<or> c = 12 \<or> c = 13 \<or> c = 34 \<or> c = 92"
    | (ctl) "c \<noteq> 8" "c \<noteq> 9" "c \<noteq> 10" "c \<noteq> 12" "c \<noteq> 13" "c \<noteq> 34" "c \<noteq> 92" "c < 32"
    | (lead) "32 \<le> c" "c \<noteq> 34" "c \<noteq> 92" "isLeadSurrogate c"
    | (trail) "32 \<le> c" "c \<noteq> 34" "c \<noteq> 92" "\<not> isLeadSurrogate c" "isTrailSurrogate c"
    | (raw) "32 \<le> c" "c \<noteq> 34" "c \<noteq> 92" "\<not> isLeadSurrogate c" "\<not> isTrailSurrogate c"
    by linarith
  then show ?case
  proof cases
    case short
    then consider "c = 8" | "c = 9" | "c = 10" | "c = 12" | "c = 13" | "c = 34" | "c = 92" by blast
    then show ?thesis
    proof cases
      case 1 with 2(1) show ?thesis by (simp add: unescape_def)
    next
      case 2 with "2.IH"(2) show ?thesis by (simp add: unescape_def)
    next
      case 3 with "2.IH"(3) show ?thesis by (simp add: unescape_def)
    next
      case 4 with "2.IH"(4) show ?thesis by (simp add: unescape_def)
    next
      case 5 with "2.IH"(5) show ?thesis by (simp add: unescape_def)
    next
      case 6 with "2.IH"(6) show ?thesis by (simp add: unescape_def)
    next
      case 7 with "2.IH"(7) show ?thesis by (simp add: unescape_def)
    qed
  next
    case ctl
    then have lt: "c < 65536" by simp
    from ctl have q: "quoteChars (c # cs) = unicodeEscape c @ quoteChars cs" by simp
    from ctl "2.IH"(8) have "parse_chars (quoteChars cs @ 34 # rest) = Some (cs, rest)" by simp
    then show ?thesis
      unfolding q by (simp add: parse_chars_unicodeEscape[OF lt] del: simps_del)
  next
    case lead
    then have lt: "c < 65536" by (simp add: isLeadSurrogate_def)
    from lead have n: "c \<noteq> 8" "c \<noteq> 9" "c \<noteq> 10" "c \<noteq> 12" "c \<noteq> 13" "\<not> c < 32" by simp_all
    show ?thesis
    proof (cases cs)
      case Nil
      with lead n have q: "quoteChars (c # cs) = unicodeEscape c" by simp
      show ?thesis
        unfolding q using parse_chars_unicodeEscape[OF lt, of "34 # rest"] Nil by simp
    next
      case (Cons d ds)
      show ?thesis
      proof (cases "isTrailSurrogate d")
        case True
        then have d: "32 \<le> d" "d \<noteq> 34" "d \<noteq> 92" by (auto simp: isTrailSurrogate_def)
        from lead n True Cons have q: "quoteChars (c # cs) = c # d # quoteChars ds" by simp
        from lead n True Cons "2.IH"(9) have "parse_chars (quoteChars ds @ 34 # rest) = Some (ds, rest)"
          by simp
        then show ?thesis
          unfolding q using lead(1,2,3) d Cons
          by (simp add: parse_chars_raw del: simps_del)
      next
        case False
        with lead n Cons have q: "quoteChars (c # cs) = unicodeEscape c @ quoteChars cs" by simp
        from lead n False Cons "2.IH"(10) have "parse_chars (quoteChars cs @ 34 # rest) = Some (cs, rest)"
          by simp
        then show ?thesis
          unfolding q by (simp add: parse_chars_unicodeEscape[OF lt] del: simps_del)
      qed
    qed
  next
    case trail
    then have lt: "c < 65536" by (simp add: isTrailSurrogate_def)
    from trail have n: "c \<noteq> 8" "c \<noteq> 9" "c \<noteq> 10" "c \<noteq> 12" "c \<noteq> 13" "\<not> c < 32" by simp_all
    from trail n have q: "quoteChars (c # cs) = unicodeEscape c @ quoteChars cs" by simp
    from trail n "2.IH"(11) have "parse_chars (quoteChars cs @ 34 # rest) = Some (cs, rest)" by simp
    then show ?thesis
      unfolding q by (simp add: parse_chars_unicodeEscape[OF lt] del: simps_del)
  next
    case raw
    then have n: "c \<noteq> 8" "c \<noteq> 9" "c \<noteq> 10" "c \<noteq> 12" "c \<noteq> 13" "\<not> c < 32" by simp_all
    from raw n have q: "quoteChars (c # cs) = c # quoteChars cs" by simp
    from raw n "2.IH"(12) have "parse_chars (quoteChars cs @ 34 # rest) = Some (cs, rest)" by simp
    then show ?thesis
      unfolding q using raw(1,2,3) by (simp add: parse_chars_raw del: simps_del)
  qed
qed

text \<open>
  A number literal is read back as itself in front of any text that cannot continue it.
\<close>

lemma takeWhile_digits_append:
  "list_all isDigit ds \<Longrightarrow> t = [] \<or> \<not> isDigit (hd t) \<Longrightarrow>
     takeWhile isDigit (ds @ t) = ds \<and> dropWhile isDigit (ds @ t) = t"
proof -
  assume d: "list_all isDigit ds" and "t = [] \<or> \<not> isDigit (hd t)"
  then have "takeWhile isDigit t = [] \<and> dropWhile isDigit t = t"
    by (cases t) auto
  with d show ?thesis
    by (induction ds) auto
qed

lemma takeWhile_digits: "list_all isDigit (takeWhile isDigit s)"
  by (induction s) auto

lemma parse_digits1_again:
  assumes "parse_digits1 s = Some (ds, r)" and "t = [] \<or> \<not> isDigit (hd t)"
  shows "parse_digits1 (ds @ t) = Some (ds, t) \<and> ds \<noteq> [] \<and> isDigit (hd ds)"
proof -
  from assms(1) have ds: "ds = takeWhile isDigit s" "ds \<noteq> []"
    by (auto simp: parse_digits1_def split: if_splits)
  then have a: "list_all isDigit ds" by (simp add: takeWhile_digits)
  with ds(2) have h: "isDigit (hd ds)" by (cases ds) auto
  from takeWhile_digits_append[OF a assms(2)] ds(2) h show ?thesis
    by (simp add: parse_digits1_def)
qed

lemma parse_int_again:
  assumes "parse_int s = Some (i, r)" and "t = [] \<or> \<not> isDigit (hd t)"
  shows "parse_int (i @ t) = Some (i, t) \<and> i \<noteq> [] \<and> isDigit (hd i)"
proof -
  from assms(1) obtain c s' where s: "s = c # s'"
    by (cases s) (auto simp: parse_int_def)
  show ?thesis
  proof (cases "c = 48")
    case True
    with assms(1) s have "i = [48]" by (simp add: parse_int_def)
    then show ?thesis by (simp add: parse_int_def isDigit_def)
  next
    case False
    with assms(1) s have c: "49 \<le> c" "c \<le> 57" and i: "i = c # takeWhile isDigit s'"
      by (auto simp: parse_int_def split: if_splits)
    from takeWhile_digits_append[OF takeWhile_digits assms(2), of s'] i c False
    show ?thesis
      by (simp add: parse_int_def isDigit_def)
  qed
qed

lemma parse_frac_again:
  assumes "parse_frac s = Some (f, r)" and "t = [] \<or> (\<not> isDigit (hd t) \<and> hd t \<noteq> 46)"
  shows "parse_frac (f @ t) = Some (f, t) \<and> (f = [] \<or> hd f = 46)"
proof (cases "\<exists>s'. s = 46 # s'")
  case True
  then obtain s' where s: "s = 46 # s'" by blast
  with assms(1) obtain ds where d: "parse_digits1 s' = Some (ds, r)" and f: "f = 46 # ds"
    by (auto simp: parse_frac_def)
  from assms(2) have "t = [] \<or> \<not> isDigit (hd t)" by blast
  from parse_digits1_again[OF d this] f show ?thesis
    by (simp add: parse_frac_def)
next
  case False
  with assms(1) have f: "f = []"
    by (cases s) (auto simp: parse_frac_def split: if_splits)
  with assms(2) show ?thesis
    by (cases t) (auto simp: parse_frac_def)
qed

lemma parse_exp_again:
  assumes "parse_exp s = Some (e, r)"
    and "t = [] \<or> (\<not> isDigit (hd t) \<and> hd t \<noteq> 101 \<and> hd t \<noteq> 69)"
  shows "parse_exp (e @ t) = Some (e, t) \<and> (e = [] \<or> hd e = 101 \<or> hd e = 69)"
proof (cases "\<exists>c s'. s = c # s' \<and> (c = 101 \<or> c = 69)")
  case True
  then obtain c s' where s: "s = c # s'" and c: "c = 101 \<or> c = 69" by blast
  from assms(2) have nd: "t = [] \<or> \<not> isDigit (hd t)" by blast
  from assms(1) s c obtain g s'' where s': "s' = g # s''"
    by (cases s') (auto simp: parse_exp_def)
  show ?thesis
  proof (cases "g = 43 \<or> g = 45")
    case True
    with assms(1) s c s' obtain ds where d: "parse_digits1 s'' = Some (ds, r)"
      and e: "e = c # g # ds"
      by (auto simp: parse_exp_def)
    from parse_digits1_again[OF d nd] e c True show ?thesis
      by (auto simp: parse_exp_def)
  next
    case False
    with assms(1) s c s' obtain ds where d: "parse_digits1 s' = Some (ds, r)"
      and e: "e = c # ds"
      by (auto simp: parse_exp_def)
    from parse_digits1_again[OF d nd] have p: "parse_digits1 (ds @ t) = Some (ds, t)"
      and ne: "ds \<noteq> []" and hd: "isDigit (hd ds)" by simp_all
    from ne obtain d0 ds' where dd: "ds = d0 # ds'" by (cases ds) auto
    with hd have "d0 \<noteq> 43" "d0 \<noteq> 45" by (auto simp: isDigit_def)
    with p e c dd show ?thesis
      by (auto simp: parse_exp_def)
  qed
next
  case False
  with assms(1) have e: "e = []"
    by (cases s) (auto simp: parse_exp_def split: if_splits)
  with assms(2) show ?thesis
    by (cases t) (auto simp: parse_exp_def)
qed

lemma parse_number_again:
  assumes "parse_number s = Some (l, r)" and "endsNumber t"
  shows "parse_number (l @ t) = Some (l, t) \<and> l \<noteq> [] \<and> (hd l = 45 \<or> isDigit (hd l))"
proof -
  define s1 where "s1 = (case s of [] \<Rightarrow> s | c # r \<Rightarrow> if c = 45 then r else s)"
  define sg :: jsstring where "sg = (case s of [] \<Rightarrow> [] | c # r \<Rightarrow> if c = 45 then [45] else [])"
  from assms(1) obtain i s2 f s3 e where
    pi: "parse_int s1 = Some (i, s2)" and pf: "parse_frac s2 = Some (f, s3)"
    and pe: "parse_exp s3 = Some (e, r)" and l: "l = sg @ i @ f @ e"
    unfolding parse_number_def s1_def sg_def Let_def
    by (auto split: list.splits if_splits option.splits)
  have sg: "sg = [] \<or> sg = [45]"
    by (auto simp: sg_def split: list.splits)
  from assms(2) have te: "t = [] \<or> (\<not> isDigit (hd t) \<and> hd t \<noteq> 101 \<and> hd t \<noteq> 69)"
    and tf: "t = [] \<or> (\<not> isDigit (hd t) \<and> hd t \<noteq> 46)"
    by (cases t; simp)+
  from parse_exp_again[OF pe te] have e1: "parse_exp (e @ t) = Some (e, t)"
    and e2: "e = [] \<or> hd e = 101 \<or> hd e = 69" by simp_all
  have "e @ t = [] \<or> (\<not> isDigit (hd (e @ t)) \<and> hd (e @ t) \<noteq> 46)"
    using e2 tf by (cases e) (auto simp: isDigit_def)
  from parse_frac_again[OF pf this] have f1: "parse_frac (f @ e @ t) = Some (f, e @ t)"
    and f2: "f = [] \<or> hd f = 46" by simp_all
  have "f @ e @ t = [] \<or> \<not> isDigit (hd (f @ e @ t))"
    using f2 e2 tf by (cases f; cases e) (auto simp: isDigit_def)
  from parse_int_again[OF pi this] have i1: "parse_int (i @ f @ e @ t) = Some (i, f @ e @ t)"
    and i2: "i \<noteq> []" and i3: "isDigit (hd i)" by simp_all
  from i2 obtain i0 i' where ii: "i = i0 # i'" by (cases i) auto
  with i3 have i0: "i0 \<noteq> 45" by (auto simp: isDigit_def)
  from sg show ?thesis
  proof
    assume "sg = []"
    with l ii i0 i1 f1 e1 i3 show ?thesis
      by (simp add: parse_number_def)
  next
    assume "sg = [45]"
    with l i1 f1 e1 show ?thesis
      by (simp add: parse_number_def)
  qed
qed

lemma parse_number_literal: "parse_number s = Some (l, r) \<Longrightarrow> numberLiteral l"
  using parse_number_again[of s l r "[]"] by (simp add: numberLiteral_def)

lemma numberLiteral_reads:
  "numberLiteral l \<Longrightarrow> endsNumber t \<Longrightarrow>
     parse_number (l @ t) = Some (l, t) \<and> l \<noteq> [] \<and> (hd l = 45 \<or> isDigit (hd l))"
  unfolding numberLiteral_def by (rule parse_number_again)

text \<open>The order of array indices is a strict total order on strings of equal length.\<close>

lemma digitsLess_trans: "digitsLess a b \<Longrightarrow> digitsLess b c \<Longrightarrow> digitsLess a c"
proof (induction a b arbitrary: c rule: digitsLess.induct)
  case (1 a as b bs)
  then show ?case by (cases c) auto
qed auto

lemma digitsLess_total:
  "length a = length b \<Longrightarrow> a \<noteq> b \<Longrightarrow> digitsLess a b \<or> digitsLess b a"
proof (induction a b rule: digitsLess.induct)
  case (1 a as b bs)
  then show ?case by auto
qed auto

lemma indexLess_trans: "indexLess a b \<Longrightarrow> indexLess b c \<Longrightarrow> indexLess a c"
  by (auto simp: indexLess_def intro: digitsLess_trans)

lemma indexLess_total: "a \<noteq> b \<Longrightarrow> indexLess a b \<or> indexLess b a"
  using digitsLess_total[of a b] by (auto simp: indexLess_def)

text \<open>
  The properties of an object read by the parser are in enumeration order, and defining
  them again in that order gives the same list.
\<close>

lemma orderedKeys_Nil: "orderedKeys []"
  by (simp add: orderedKeys_def)

lemma insertIndexed_append:
  "list_all (\<lambda>p. isArrayIndex (fst p)) a \<Longrightarrow> list_all (\<lambda>p. \<not> isArrayIndex (fst p)) b \<Longrightarrow>
     insertIndexed k v (a @ b) = insertIndexed k v a @ b"
proof (induction a)
  case Nil
  then show ?case by (cases b) auto
next
  case (Cons p a)
  then show ?case by (cases p) auto
qed

lemma sorted_insertIndexed:
  assumes "sorted_wrt indexLess (map fst a)" and "k \<notin> fst ` set a"
    and "list_all (\<lambda>p. isArrayIndex (fst p)) a"
  shows "sorted_wrt indexLess (map fst (insertIndexed k v a))"
  using assms
proof (induction a)
  case Nil
  show ?case by simp
next
  case (Cons p a)
  obtain x y where p: "p = (x, y)" by (cases p)
  from Cons.prems p have x: "x \<noteq> k" and s: "sorted_wrt indexLess (map fst a)"
    and k: "k \<notin> fst ` set a" and xa: "\<forall>z \<in> fst ` set a. indexLess x z"
    and ix: "isArrayIndex x" and ia: "list_all (\<lambda>p. isArrayIndex (fst p)) a"
    by auto
  show ?case
  proof (cases "indexLess x k")
    case True
    with p ix Cons.IH[OF s k ia] xa show ?thesis
      by (auto simp: set_insertIndexed)
  next
    case False
    with x indexLess_total[of k x] have kx: "indexLess k x" by blast
    then have "\<forall>z \<in> fst ` set a. indexLess k z"
      using xa by (blast intro: indexLess_trans)
    with False p kx s xa show ?thesis by auto
  qed
qed

lemma insertIndexed_last:
  "\<forall>p \<in> set a. isArrayIndex (fst p) \<and> indexLess (fst p) k \<Longrightarrow>
     insertIndexed k v a = a @ [(k, v)]"
proof (induction a)
  case Nil
  show ?case by simp
next
  case (Cons p a)
  then show ?case by (cases p) auto
qed

lemma orderedKeys_defineProperty:
  assumes "orderedKeys (map fst ps)"
  shows "orderedKeys (map fst (defineProperty k v ps))"
proof (cases "k \<in> fst ` set ps")
  case True
  then show ?thesis
    using assms by (simp add: defineProperty_def map_fst_replace)
next
  case False
  from assms obtain ka kb where d: "distinct (map fst ps)" and ks: "map fst ps = ka @ kb"
    and ia: "list_all isArrayIndex ka" and sa: "sorted_wrt indexLess ka"
    and ib: "list_all (\<lambda>k. \<not> isArrayIndex k) kb"
    unfolding orderedKeys_def by blast
  define a where "a = take (length ka) ps"
  define b where "b = drop (length ka) ps"
  have ps: "ps = a @ b" by (simp add: a_def b_def)
  from ks have ka: "map fst a = ka" and kb: "map fst b = kb"
    unfolding a_def b_def
    by (metis append_eq_conv_conj take_map, metis append_eq_conv_conj drop_map)
  from ia ka have ia': "list_all (\<lambda>p. isArrayIndex (fst p)) a"
    by (force simp: list_all_iff)
  from ib kb have ib': "list_all (\<lambda>p. \<not> isArrayIndex (fst p)) b"
    by (force simp: list_all_iff)
  show ?thesis
  proof (cases "isArrayIndex k")
    case True
    from False ps have ka_notin: "k \<notin> fst ` set a" by auto
    have e: "defineProperty k v ps = insertIndexed k v a @ b"
      using False True ps insertIndexed_append[OF ia' ib'] by (simp add: defineProperty_def)
    have "distinct (map fst (defineProperty k v ps))"
      using d by (rule distinct_defineProperty)
    moreover have "list_all isArrayIndex (map fst (insertIndexed k v a))"
      using ia' True by (auto simp: list_all_iff set_insertIndexed)
    moreover have "sorted_wrt indexLess (map fst (insertIndexed k v a))"
      using sa ka ka_notin ia' by (intro sorted_insertIndexed) simp_all
    ultimately show ?thesis
      unfolding orderedKeys_def e using ib kb
      by (intro conjI exI[of _ "map fst (insertIndexed k v a)"] exI[of _ kb]) simp_all
  next
    case nidx: False
    have e: "defineProperty k v ps = ps @ [(k, v)]"
      using False nidx by (simp add: defineProperty_def)
    have "distinct (map fst (defineProperty k v ps))"
      using d by (rule distinct_defineProperty)
    then show ?thesis
      unfolding orderedKeys_def e using ks ia sa ib nidx
      by (intro conjI exI[of _ ka] exI[of _ "kb @ [k]"]) simp_all
  qed
qed

lemma orderedKeys_butlast: "orderedKeys (ks @ [k]) \<Longrightarrow> orderedKeys ks"
proof -
  assume "orderedKeys (ks @ [k])"
  then obtain a b where d: "distinct (ks @ [k])" and e: "ks @ [k] = a @ b"
    and ia: "list_all isArrayIndex a" and sa: "sorted_wrt indexLess a"
    and ib: "list_all (\<lambda>k. \<not> isArrayIndex k) b"
    unfolding orderedKeys_def by blast
  show ?thesis
  proof (cases b rule: rev_cases)
    case Nil
    with e have a: "a = ks @ [k]" by simp
    with ia sa d show ?thesis
      unfolding orderedKeys_def
      by (intro conjI exI[of _ ks] exI[of _ "[]"]) (simp_all add: sorted_wrt_append)
  next
    case (snoc b' x)
    with e have "ks = a @ b'" by simp
    with ia sa ib snoc d show ?thesis
      unfolding orderedKeys_def
      by (intro conjI exI[of _ a] exI[of _ b']) simp_all
  qed
qed

lemma defineProperty_last:
  assumes "orderedKeys (map fst ps @ [k])"
  shows "defineProperty k v ps = ps @ [(k, v)]"
proof -
  from assms obtain a b where d: "distinct (map fst ps @ [k])" and e: "map fst ps @ [k] = a @ b"
    and ia: "list_all isArrayIndex a" and sa: "sorted_wrt indexLess a"
    and ib: "list_all (\<lambda>k. \<not> isArrayIndex k) b"
    unfolding orderedKeys_def by blast
  from d have n: "k \<notin> fst ` set ps" by auto
  show ?thesis
  proof (cases "isArrayIndex k")
    case True
    have "b = []"
    proof (cases b rule: rev_cases)
      case (snoc b' x)
      with e have "x = k" by simp
      with snoc ib True show ?thesis by simp
    qed simp
    with e have a: "a = map fst ps @ [k]" by simp
    with ia sa have "\<forall>p \<in> set ps. isArrayIndex (fst p) \<and> indexLess (fst p) k"
      by (auto simp: list_all_iff sorted_wrt_append)
    from insertIndexed_last[OF this] n True show ?thesis
      by (simp add: defineProperty_def)
  next
    case False
    with n show ?thesis by (simp add: defineProperty_def)
  qed
qed

lemma redefine_ordered:
  "orderedKeys (map fst ps) \<Longrightarrow>
     foldl (\<lambda>acc (k, v). defineProperty k v acc) [] ps = ps"
proof (induction ps rule: rev_induct)
  case Nil
  show ?case by simp
next
  case (snoc p ps)
  obtain k v where p: "p = (k, v)" by (cases p)
  from snoc.prems p have o: "orderedKeys (map fst ps @ [k])" by simp
  from orderedKeys_butlast[OF o] snoc.IH have "foldl (\<lambda>acc (k, v). defineProperty k v acc) [] ps = ps"
    by simp
  with defineProperty_last[OF o] p show ?case by simp
qed

lemma values_defineProperty:
  "list_all P (map snd ps) \<Longrightarrow> P v \<Longrightarrow> list_all P (map snd (defineProperty k v ps))"
  by (auto simp: defineProperty_def list_all_iff set_insertIndexed split: if_splits)

lemma parse_wellFormed:
  shows "parse_value s = Some (v, r) \<Longrightarrow> wellFormed v"
    and "parse_elements acc s' = Some (vs, r') \<Longrightarrow> list_all wellFormed acc
           \<Longrightarrow> list_all wellFormed vs"
    and "parse_members macc s'' = Some (ms, r'') \<Longrightarrow> orderedKeys (map fst macc)
           \<Longrightarrow> list_all wellFormed (map snd macc)
           \<Longrightarrow> orderedKeys (map fst ms) \<and> list_all wellFormed (map snd ms)"
proof (induction s and acc s' and macc s'' arbitrary: v r and vs r' and ms r''
       rule: parse_value_parse_elements_parse_members.induct)
  case (1 s)
  from "1.prems" obtain c t where st: "skipWs s = c # t"
    by (subst (asm) parse_value.simps) (auto split: list.splits)
  consider (obj) "c = 123" | (arr) "c \<noteq> 123" "c = 91" | (str) "c \<noteq> 123" "c \<noteq> 91" "c = 34"
    | (other) "c \<noteq> 123" "c \<noteq> 91" "c \<noteq> 34" by blast
  then show ?case
  proof cases
    case obj
    from "1.prems" st obj obtain d t' where dt: "skipWs t = d # t'"
      by (subst (asm) parse_value.simps) (auto split: list.splits)
    show ?thesis
    proof (cases "d = 125")
      case True
      with "1.prems" st obj dt have "v = JObject []"
        by (subst (asm) parse_value.simps) simp
      then show ?thesis by (simp add: orderedKeys_Nil)
    next
      case False
      with "1.prems" st obj dt obtain ms where m: "parse_members [] (d # t') = Some (ms, r)"
        and v: "v = JObject ms"
        by (subst (asm) parse_value.simps) auto
      from "1.IH"(1)[OF st obj dt False m] v show ?thesis by (simp add: orderedKeys_Nil)
    qed
  next
    case arr
    from "1.prems" st arr obtain d t' where dt: "skipWs t = d # t'"
      by (subst (asm) parse_value.simps) (auto split: list.splits)
    show ?thesis
    proof (cases "d = 93")
      case True
      with "1.prems" st arr dt have "v = JArray []"
        by (subst (asm) parse_value.simps) simp
      then show ?thesis by simp
    next
      case False
      with "1.prems" st arr dt obtain vs where m: "parse_elements [] (d # t') = Some (vs, r)"
        and v: "v = JArray vs"
        by (subst (asm) parse_value.simps) auto
      from "1.IH"(2)[OF st arr(1) arr(2) dt False m] v show ?thesis by simp
    qed
  next
    case str
    with "1.prems" st obtain x where "v = JString x"
      by (subst (asm) parse_value.simps) auto
    then show ?thesis by simp
  next
    case other
    from "1.prems" st other show ?thesis
      apply (subst (asm) parse_value.simps)
      apply (simp split: if_splits)
         apply (auto dest!: parse_number_literal)
      done
  qed
next
  case (2 acc s)
  from "2.prems"(1) obtain v r where pv: "parse_value s = Some (v, r)"
    by (subst (asm) parse_elements.simps) (auto split: option.splits)
  from "2.prems"(1) pv have g: "length r < length s"
    by (subst (asm) parse_elements.simps) (auto split: if_splits)
  from "2.prems"(1) pv g obtain c t where st: "skipWs r = c # t"
    by (subst (asm) parse_elements.simps) (auto split: list.splits)
  from "2.IH"(1)[OF pv] "2.prems"(2) have w: "list_all wellFormed (acc @ [v])" by simp
  show ?case
  proof (cases "c = 44")
    case True
    with "2.prems"(1) pv g st have "parse_elements (acc @ [v]) t = Some (vs, r')"
      by (subst (asm) parse_elements.simps) simp
    from "2.IH"(2)[OF pv refl g st True this w] show ?thesis .
  next
    case False
    with "2.prems"(1) pv g st have "vs = acc @ [v]"
      by (subst (asm) parse_elements.simps) (auto split: if_splits)
    with w show ?thesis by simp
  qed
next
  case (3 acc s)
  note p = "3.prems"(1)
  from p obtain q t where st: "skipWs s = q # t"
    by (subst (asm) parse_members.simps) (auto split: list.splits)
  from p st have q: "\<not> q \<noteq> 34"
    by (subst (asm) parse_members.simps) (auto split: if_splits)
  from p st q obtain k r1 where pc: "parse_chars t = Some (k, r1)"
    by (subst (asm) parse_members.simps) (auto split: option.splits)
  from p st q pc obtain colon r2 where st2: "skipWs r1 = colon # r2"
    by (subst (asm) parse_members.simps) (auto split: list.splits)
  from p st q pc st2 have g: "\<not> (colon \<noteq> 58 \<or> \<not> length r2 < length s)"
    by (subst (asm) parse_members.simps) (auto split: if_splits)
  from p st q pc st2 g obtain v r3 where pv: "parse_value r2 = Some (v, r3)"
    by (subst (asm) parse_members.simps) (auto split: option.splits)
  from p st q pc st2 g pv have g2: "length r3 < length r2"
    by (subst (asm) parse_members.simps) (auto split: if_splits)
  from p st q pc st2 g pv g2 obtain c r4 where st3: "skipWs r3 = c # r4"
    by (subst (asm) parse_members.simps) (auto split: list.splits)
  from "3.IH"(1)[OF st q pc refl st2 g pv] have wv: "wellFormed v" .
  from orderedKeys_defineProperty[OF "3.prems"(2)]
  have o: "orderedKeys (map fst (defineProperty k v acc))" .
  from values_defineProperty[OF "3.prems"(3) wv]
  have w: "list_all wellFormed (map snd (defineProperty k v acc))" .
  show ?case
  proof (cases "c = 44")
    case True
    with p st q pc st2 g pv g2 st3
    have "parse_members (defineProperty k v acc) r4 = Some (ms, r'')"
      by (subst (asm) parse_members.simps) simp
    from "3.IH"(2)[OF st q pc refl st2 g pv refl g2 st3 True this o w] show ?thesis .
  next
    case False
    with p st q pc st2 g pv g2 st3 have "ms = defineProperty k v acc"
      by (subst (asm) parse_members.simps) (auto split: if_splits)
    with o w show ?thesis by simp
  qed
qed

lemma JSON_parse_wellFormed: "JSON_parse text = Some v \<Longrightarrow> wellFormed v"
  by (auto simp: JSON_parse_def simp del: parse_value.simps
           split: option.splits if_splits dest: parse_wellFormed(1))

text \<open>What \<open>JSON.stringify\<close> writes is read back by \<open>JSON.parse\<close>.\<close>

lemma skipWs_whitespace: "list_all isWhitespace w \<Longrightarrow> skipWs (w @ s) = skipWs s"
  by (induction w) (auto simp: skipWs_def)

lemma skipWs_start: "\<not> isWhitespace c \<Longrightarrow> skipWs (c # s) = c # s"
  by (simp add: skipWs_def)

lemma parse_value_whitespace:
  "list_all isWhitespace w \<Longrightarrow> parse_value (w @ s) = parse_value s"
  using parse_value_skipWs[of "w @ s"] parse_value_skipWs[of s] by (simp add: skipWs_whitespace)

lemma parse_elements_whitespace:
  "list_all isWhitespace w \<Longrightarrow> parse_elements acc (w @ s) = parse_elements acc s"
  using parse_elements_skipWs[of acc "w @ s"] parse_elements_skipWs[of acc s]
  by (simp add: skipWs_whitespace)

lemma parse_members_whitespace:
  "list_all isWhitespace w \<Longrightarrow> parse_members acc (w @ s) = parse_members acc s"
  using parse_members_skipWs[of acc "w @ s"] parse_members_skipWs[of acc s]
  by (simp add: skipWs_whitespace)

lemma spaces_whitespace: "list_all (\<lambda>c. c = 32) ind \<Longrightarrow> list_all isWhitespace (10 # ind)"
  by (auto simp: list_all_iff isWhitespace_def)

text \<open>The first character of a serialized value.\<close>

lemma valueStart_simps:
  "valueStart c \<Longrightarrow> \<not> isWhitespace c \<and> c \<noteq> 93 \<and> c \<noteq> 125"
  by (auto simp: valueStart_def isWhitespace_def isDigit_def)

lemma serialize_start:
  assumes "stableNumbers numberToString" and "wellFormed v"
  shows "\<exists>c cs. serialize numberToString ind v = c # cs \<and> valueStart c"
proof (cases v)
  case (JNumber l)
  with assms(2) have l: "numberLiteral l" by simp
  show ?thesis
  proof (cases "numberToString l = js ''null''")
    case True
    with JNumber show ?thesis by (simp add: js_def valueStart_def)
  next
    case False
    with assms(1) l have "numberLiteral (numberToString l)"
      by (auto simp: stableNumbers_def)
    from numberLiteral_reads[OF this, of "[]"] JNumber show ?thesis
      by (cases "numberToString l") (auto simp: valueStart_def)
  qed
qed (auto simp: js_def valueStart_def QuoteJSONString_def)

lemma serialize_reread:
  assumes "stableNumbers numberToString"
  shows "wellFormed v \<Longrightarrow>
     serialize numberToString ind (reread numberToString v) = serialize numberToString ind v"
proof (induction v arbitrary: ind)
  case (JNumber l)
  with assms show ?case by (auto simp: stableNumbers_def)
next
  case (JArray vs)
  then have m: "map (serialize numberToString (ind @ js ''  '') \<circ> reread numberToString) vs
               = map (serialize numberToString (ind @ js ''  '')) vs"
    by (intro map_cong) (auto simp: list_all_iff)
  show ?case by (simp add: m)
next
  case (JObject ms)
  have m: "map ((\<lambda>(k, v). QuoteJSONString k @ js '': '' @ serialize numberToString (ind @ js ''  '') v)
              \<circ> (\<lambda>(k, v). (k, reread numberToString v))) ms
          = map (\<lambda>(k, v). QuoteJSONString k @ js '': '' @ serialize numberToString (ind @ js ''  '') v) ms"
  proof (intro map_cong refl)
    fix p assume p: "p \<in> set ms"
    obtain k v where kv: "p = (k, v)" by (cases p)
    with p have "v \<in> Basic_BNFs.snds p" by simp
    moreover from JObject.prems p kv have "wellFormed v" by (auto simp: list_all_iff)
    ultimately show "((\<lambda>(k, v). QuoteJSONString k @ js '': '' @ serialize numberToString (ind @ js ''  '') v)
              \<circ> (\<lambda>(k, v). (k, reread numberToString v))) p
          = (\<lambda>(k, v). QuoteJSONString k @ js '': '' @ serialize numberToString (ind @ js ''  '') v) p"
      using JObject.IH[OF p] kv by simp
  qed
  show ?case by (simp add: m)
qed simp_all

lemma endsNumber_separator [simp]: "endsNumber (44 # s)" "endsNumber (10 # s)"
  by (simp_all add: isDigit_def)

lemma parse_elements_serialized:
  assumes ih: "\<And>v rest. v \<in> set vs \<Longrightarrow> endsNumber rest
                 \<Longrightarrow> parse_value (ser v @ rest) = Some (f v, rest)"
    and ne: "vs \<noteq> []"
    and sp: "list_all isWhitespace (10 # ind')" "list_all isWhitespace (10 # ind)"
  shows "parse_elements acc (joinWith (44 # 10 # ind') (map ser vs) @ 10 # ind @ 93 # rest)
           = Some (acc @ map f vs, rest)"
  using ih ne
proof (induction vs arbitrary: acc)
  case Nil
  then show ?case by simp
next
  case (Cons v vs)
  show ?case
  proof (cases vs)
    case Nil
    have pv: "parse_value (ser v @ 10 # ind @ 93 # rest) = Some (f v, 10 # ind @ 93 # rest)"
      by (rule Cons.prems(1)) (simp_all add: isDigit_def)
    have sk: "skipWs (10 # ind @ 93 # rest) = 93 # rest"
      using skipWs_whitespace[OF sp(2), of "93 # rest"]
      by (simp add: skipWs_start isWhitespace_def)
    show ?thesis
      using Nil by (simp add: parse_elements_unfold[of acc "ser v @ 10 # ind @ 93 # rest"] pv sk)
  next
    case (Cons w ws)
    let ?J = "joinWith (44 # 10 # ind') (map ser vs) @ 10 # ind @ 93 # rest"
    have pv: "parse_value (ser v @ 44 # 10 # ind' @ ?J) = Some (f v, 44 # 10 # ind' @ ?J)"
      by (rule Cons.prems(1)) (simp_all add: isDigit_def)
    have sk: "skipWs (44 # 10 # ind' @ ?J) = 44 # 10 # ind' @ ?J"
      by (simp add: skipWs_start isWhitespace_def)
    have next_: "parse_elements (acc @ [f v]) (10 # ind' @ ?J) = Some ((acc @ [f v]) @ map f vs, rest)"
      using parse_elements_whitespace[OF sp(1), of "acc @ [f v]" ?J]
        Cons.IH[of "acc @ [f v]"] Cons.prems(1) Cons
      by simp
    have j: "joinWith (44 # 10 # ind') (map ser (v # vs)) @ 10 # ind @ 93 # rest
               = ser v @ 44 # 10 # ind' @ ?J"
      using Cons by simp
    show ?thesis
      unfolding j
      by (simp add: parse_elements_unfold[of acc "ser v @ 44 # 10 # ind' @ ?J"] pv sk next_)
  qed
qed

lemma parse_members_serialized:
  assumes ih: "\<And>k v rest. (k, v) \<in> set ms \<Longrightarrow> endsNumber rest
                 \<Longrightarrow> parse_value (ser v @ rest) = Some (f v, rest)"
    and ne: "ms \<noteq> []"
    and sp: "list_all isWhitespace (10 # ind')" "list_all isWhitespace (10 # ind)"
  shows "parse_members acc
           (joinWith (44 # 10 # ind') (map (\<lambda>(k, v). QuoteJSONString k @ 58 # 32 # ser v) ms)
              @ 10 # ind @ 125 # rest)
           = Some (foldl (\<lambda>a (k, v). defineProperty k (f v) a) acc ms, rest)"
  using ih ne
proof (induction ms arbitrary: acc)
  case Nil
  then show ?case by simp
next
  case (Cons p ms)
  obtain k v where p: "p = (k, v)" by (cases p)
  have member: "parse_members acc (QuoteJSONString k @ 58 # 32 # ser v @ T)
          = (case skipWs T of
               [] \<Rightarrow> None
             | c # r4 \<Rightarrow>
                 if c = 44 then parse_members (defineProperty k (f v) acc) r4
                 else if c = 125 then Some (defineProperty k (f v) acc, r4)
                 else None)"
    if "endsNumber T" for T
  proof -
    have pv: "parse_value (ser v @ T) = Some (f v, T)"
      using Cons.prems(1)[of k v T] p that by simp
    have "parse_value (32 # ser v @ T) = parse_value (ser v @ T)"
      using parse_value_whitespace[of "[32]" "ser v @ T"] by (simp add: isWhitespace_def)
    with pv have pv': "parse_value (32 # ser v @ T) = Some (f v, T)" by simp
    have pc: "parse_chars (quoteChars k @ 34 # 58 # 32 # ser v @ T) = Some (k, 58 # 32 # ser v @ T)"
      by (rule parse_chars_quoteChars)
    show ?thesis
      by (subst parse_members_unfold)
        (simp add: QuoteJSONString_def skipWs_start isWhitespace_def pc pv')
  qed
  show ?case
  proof (cases "ms = []")
    case True
    have sk: "skipWs (10 # ind @ 125 # rest) = 125 # rest"
      using skipWs_whitespace[OF sp(2), of "125 # rest"]
      by (simp add: skipWs_start isWhitespace_def)
    show ?thesis
      using True p member[of "10 # ind @ 125 # rest"] by (simp add: sk isDigit_def)
  next
    case False
    let ?J = "joinWith (44 # 10 # ind') (map (\<lambda>(k, v). QuoteJSONString k @ 58 # 32 # ser v) ms)
                @ 10 # ind @ 125 # rest"
    have sk: "skipWs (44 # 10 # ind' @ ?J) = 44 # 10 # ind' @ ?J"
      by (simp add: skipWs_start isWhitespace_def)
    have ih: "parse_members (defineProperty k (f v) acc) ?J
                = Some (foldl (\<lambda>a (k, v). defineProperty k (f v) a) (defineProperty k (f v) acc) ms, rest)"
    proof (rule Cons.IH)
      show "parse_value (ser v' @ rest') = Some (f v', rest')"
        if "(k', v') \<in> set ms" "endsNumber rest'" for k' v' rest'
        using Cons.prems(1)[of k' v' rest'] that by simp
      show "ms \<noteq> []" by (rule False)
    qed
    have next_: "parse_members (defineProperty k (f v) acc) (10 # ind' @ ?J)
                  = Some (foldl (\<lambda>a (k, v). defineProperty k (f v) a) (defineProperty k (f v) acc) ms, rest)"
      using parse_members_whitespace[OF sp(1), of "defineProperty k (f v) acc" ?J] ih
      by simp
    obtain q qs where ms: "ms = q # qs" using False by (cases ms) auto
    have j: "joinWith (44 # 10 # ind') (map (\<lambda>(k, v). QuoteJSONString k @ 58 # 32 # ser v) (p # ms))
               @ 10 # ind @ 125 # rest
               = QuoteJSONString k @ 58 # 32 # ser v @ 44 # 10 # ind' @ ?J"
      unfolding ms p by simp
    have m: "parse_members acc (QuoteJSONString k @ 58 # 32 # ser v @ 44 # 10 # ind' @ ?J)
               = parse_members (defineProperty k (f v) acc) (10 # ind' @ ?J)"
      using member[of "44 # 10 # ind' @ ?J"] by (simp add: sk isDigit_def)
    show ?thesis
      unfolding j m next_ by (simp add: p)
  qed
qed

lemma joinWith_start:
  "xs \<noteq> [] \<Longrightarrow> hd xs = c # cs \<Longrightarrow> \<exists>t. joinWith sep xs = c # t"
  by (cases "(sep, xs)" rule: joinWith.cases) auto

lemma parse_value_start:
  assumes "\<not> isWhitespace c"
  shows "parse_value (c # r) =
          (if c = 123 then
            (case skipWs r of
               [] \<Rightarrow> None
             | d # r' \<Rightarrow> if d = 125 then Some (JObject [], r')
                          else map_option (\<lambda>(ms, rest). (JObject ms, rest)) (parse_members [] (d # r')))
          else if c = 91 then
            (case skipWs r of
               [] \<Rightarrow> None
             | d # r' \<Rightarrow> if d = 93 then Some (JArray [], r')
                          else map_option (\<lambda>(vs, rest). (JArray vs, rest)) (parse_elements [] (d # r')))
          else if c = 34 then map_option (\<lambda>(str, rest). (JString str, rest)) (parse_chars r)
          else if prefix (js ''true'') (c # r) then Some (JBool True, drop 4 (c # r))
          else if prefix (js ''false'') (c # r) then Some (JBool False, drop 5 (c # r))
          else if prefix (js ''null'') (c # r) then Some (JNull, drop 4 (c # r))
          else map_option (\<lambda>(lexeme, rest). (JNumber lexeme, rest)) (parse_number (c # r)))"
  by (subst parse_value.simps) (simp add: skipWs_start[OF assms])

lemma parse_value_null: "parse_value (js ''null'' @ rest) = Some (JNull, rest)"
  by (simp add: js_def parse_value_start isWhitespace_def)

lemma parse_value_true: "parse_value (js ''true'' @ rest) = Some (JBool True, rest)"
  by (simp add: js_def parse_value_start isWhitespace_def)

lemma parse_value_false: "parse_value (js ''false'' @ rest) = Some (JBool False, rest)"
  by (simp add: js_def parse_value_start isWhitespace_def)

lemma parse_value_number:
  assumes "numberLiteral l" and "endsNumber rest"
  shows "parse_value (l @ rest) = Some (JNumber l, rest)"
proof -
  from numberLiteral_reads[OF assms]
  have pn: "parse_number (l @ rest) = Some (l, rest)" and ne: "l \<noteq> []"
    and h: "hd l = 45 \<or> isDigit (hd l)" by simp_all
  from ne obtain c cs where l: "l = c # cs" by (cases l) auto
  with h have c: "c = 45 \<or> isDigit c" by simp
  show ?thesis
    using c pn unfolding l
    by (auto simp: parse_value_start isWhitespace_def isDigit_def js_def)
qed

lemma parse_value_string: "parse_value (QuoteJSONString s @ rest) = Some (JString s, rest)"
  by (simp add: QuoteJSONString_def parse_value_start isWhitespace_def parse_chars_quoteChars)

lemma spaces_deeper: "list_all (\<lambda>c. c = 32) ind \<Longrightarrow> list_all (\<lambda>c. c = 32) (ind @ js ''  '')"
  by (simp add: js_def)

lemma parse_value_array:
  assumes "list_all isWhitespace w" and "parse_elements [] (c # t) = Some (vs, rest)"
    and "\<not> isWhitespace c" and "c \<noteq> 93"
  shows "parse_value (91 # w @ c # t) = Some (JArray vs, rest)"
  using assms(2-)
  by (simp add: parse_value_start[of 91] isWhitespace_def skipWs_whitespace[OF assms(1)] skipWs_start)

lemma parse_value_object:
  assumes "list_all isWhitespace w" and "parse_members [] (c # t) = Some (ms, rest)"
    and "\<not> isWhitespace c" and "c \<noteq> 125"
  shows "parse_value (123 # w @ c # t) = Some (JObject ms, rest)"
  using assms(2-)
  by (simp add: parse_value_start[of 123] isWhitespace_def skipWs_whitespace[OF assms(1)] skipWs_start)

theorem parse_serialize:
  assumes st: "stableNumbers numberToString"
  shows "wellFormed v \<Longrightarrow> list_all (\<lambda>c. c = 32) ind \<Longrightarrow> endsNumber rest \<Longrightarrow>
     parse_value (serialize numberToString ind v @ rest) = Some (reread numberToString v, rest)"
proof (induction v arbitrary: ind rest)
  case JNull
  show ?case by (simp add: parse_value_null)
next
  case (JBool b)
  show ?case by (simp add: parse_value_true parse_value_false)
next
  case (JNumber l)
  then have l: "numberLiteral l" by simp
  show ?case
  proof (cases "numberToString l = js ''null''")
    case True
    then show ?thesis by (simp add: parse_value_null)
  next
    case False
    with st l have "numberLiteral (numberToString l)" by (auto simp: stableNumbers_def)
    from parse_value_number[OF this JNumber.prems(3)] False show ?thesis by simp
  qed
next
  case (JString s)
  show ?case by (simp add: parse_value_string)
next
  case (JArray vs)
  show ?case
  proof (cases "vs = []")
    case True
    then show ?thesis
      by (simp add: js_def parse_value_start isWhitespace_def skipWs_start)
  next
    case False
    define ind' where "ind' = ind @ js ''  ''"
    define J where "J = joinWith (44 # 10 # ind') (map (serialize numberToString ind') vs)"
    have deeper: "list_all (\<lambda>c. c = 32) ind'"
      unfolding ind'_def by (rule spaces_deeper[OF JArray.prems(2)])
    have sp: "list_all isWhitespace (10 # ind)" "list_all isWhitespace (10 # ind')"
      by (rule spaces_whitespace[OF JArray.prems(2)], rule spaces_whitespace[OF deeper])
    have wf: "wellFormed x" if "x \<in> set vs" for x
      using JArray.prems(1) that by (simp add: list_all_iff)
    have elems: "parse_elements [] (J @ 10 # ind @ 93 # rest)
                   = Some ([] @ map (reread numberToString) vs, rest)"
      unfolding J_def
    proof (rule parse_elements_serialized)
      show "parse_value (serialize numberToString ind' x @ rest') = Some (reread numberToString x, rest')"
        if "x \<in> set vs" "endsNumber rest'" for x rest'
        using JArray.IH[OF that(1) wf[OF that(1)] deeper that(2)] .
      show "vs \<noteq> []" by (rule False)
    qed (rule sp(2), rule sp(1))
    from False obtain x xs where vs: "vs = x # xs" by (cases vs) auto
    from serialize_start[OF st wf[of x], of ind'] vs
    obtain c cs where c: "serialize numberToString ind' x = c # cs" "valueStart c" by auto
    from joinWith_start[of "map (serialize numberToString ind') vs" c cs "44 # 10 # ind'"] vs c(1)
    obtain t where t: "J = c # t" unfolding J_def by auto
    have ser: "serialize numberToString ind (JArray vs) @ rest
                = 91 # (10 # ind') @ c # (t @ 10 # ind @ 93 # rest)"
      using False t by (simp add: js_def ind'_def J_def)
    have "parse_value (91 # (10 # ind') @ c # (t @ 10 # ind @ 93 # rest))
            = Some (JArray (map (reread numberToString) vs), rest)"
      by (rule parse_value_array[OF sp(2)]) (use elems t valueStart_simps[OF c(2)] in simp_all)
    then show ?thesis
      unfolding ser by simp
  qed
next
  case (JObject ms)
  show ?case
  proof (cases "ms = []")
    case True
    then show ?thesis
      by (simp add: js_def parse_value_start isWhitespace_def skipWs_start)
  next
    case False
    define ind' where "ind' = ind @ js ''  ''"
    define J where "J = joinWith (44 # 10 # ind')
                (map (\<lambda>(k, v). QuoteJSONString k @ 58 # 32 # serialize numberToString ind' v) ms)"
    have deeper: "list_all (\<lambda>c. c = 32) ind'"
      unfolding ind'_def by (rule spaces_deeper[OF JObject.prems(2)])
    have sp: "list_all isWhitespace (10 # ind)" "list_all isWhitespace (10 # ind')"
      by (rule spaces_whitespace[OF JObject.prems(2)], rule spaces_whitespace[OF deeper])
    have wf: "wellFormed x" if "(k, x) \<in> set ms" for k x
      using JObject.prems(1) that by (force simp: list_all_iff)
    have keys: "orderedKeys (map fst ms)" using JObject.prems(1) by simp
    have members: "parse_members [] (J @ 10 # ind @ 125 # rest)
            = Some (foldl (\<lambda>a (k, v). defineProperty k (reread numberToString v) a) [] ms, rest)"
      unfolding J_def
    proof (rule parse_members_serialized)
      show "parse_value (serialize numberToString ind' x @ rest') = Some (reread numberToString x, rest')"
        if "(k, x) \<in> set ms" "endsNumber rest'" for k x rest'
        using JObject.IH[of "(k, x)" x ind' rest'] that wf[OF that(1)] deeper
        by simp
      show "ms \<noteq> []" by (rule False)
    qed (rule sp(2), rule sp(1))
    have "foldl (\<lambda>a (k, v). defineProperty k (reread numberToString v) a) [] ms
            = foldl (\<lambda>a (k, v). defineProperty k v a) []
                (map (\<lambda>(k, v). (k, reread numberToString v)) ms)"
      by (simp add: foldl_map split_def)
    also have "\<dots> = map (\<lambda>(k, v). (k, reread numberToString v)) ms"
      by (rule redefine_ordered) (simp add: keys comp_def split_def)
    finally have fold: "foldl (\<lambda>a (k, v). defineProperty k (reread numberToString v) a) [] ms
            = map (\<lambda>(k, v). (k, reread numberToString v)) ms" .
    from False obtain p ps where ms: "ms = p # ps" by (cases ms) auto
    obtain t where t: "J = 34 # t"
      using joinWith_start[of "map (\<lambda>(k, v). QuoteJSONString k @ 58 # 32 # serialize numberToString ind' v) ms"
               34 _ "44 # 10 # ind'"] ms
      unfolding J_def by (cases p) (auto simp: QuoteJSONString_def)
    have ser: "serialize numberToString ind (JObject ms) @ rest
                = 123 # (10 # ind') @ 34 # (t @ 10 # ind @ 125 # rest)"
      using False t by (simp add: js_def ind'_def J_def)
    have "parse_value (123 # (10 # ind') @ 34 # (t @ 10 # ind @ 125 # rest))
            = Some (JObject (map (\<lambda>(k, v). (k, reread numberToString v)) ms), rest)"
      by (rule parse_value_object[OF sp(2)])
         (use members t fold in \<open>simp_all add: isWhitespace_def\<close>)
    then show ?thesis
      unfolding ser by simp
  qed
qed

theorem JSON_parse_stringify:
  assumes "stableNumbers numberToString" and "wellFormed v"
  shows "JSON_parse (JSON_stringify numberToString v) = Some (reread numberToString v)"
  using parse_serialize[OF assms, of "[]" "[]"]
  by (simp add: JSON_parse_def JSON_stringify_def skipWs_def)

theorem JSON_stringify_reread:
  assumes "stableNumbers numberToString" and "wellFormed v"
  shows "JSON_stringify numberToString (reread numberToString v) = JSON_stringify numberToString v"
  by (simp add: JSON_stringify_def serialize_reread[OF assms])

lemma JSON_stringify_nonempty:
  assumes "stableNumbers numberToString" and "wellFormed v"
  shows "JSON_stringify numberToString v \<noteq> []"
  using serialize_start[OF assms, of "[]"] by (auto simp: JSON_stringify_def)


section \<open>Content cleaning: results\<close>

text \<open>
  Steps 1 to 3 of \<open>DockerManager.ultraCleanContent\<close> amount to keeping the characters of
  the whitelist: step 1 has already deleted what steps 2 and 3 look for.
\<close>

lemma safeAscii_not_control: "safeAscii c \<Longrightarrow> \<not> controlCharacter c"
  by (auto simp: safeAscii_def controlCharacter_def)

lemma replaceCRLF_without_CR: "13 \<notin> set s \<Longrightarrow> replaceCRLF s = s"
  by (induction s rule: replaceCRLF.induct) auto

lemma normalizeLineEndings_without_CR: "13 \<notin> set s \<Longrightarrow> normalizeLineEndings s = s"
proof -
  assume a: "13 \<notin> set s"
  then have "map (\<lambda>c. if c = 13 then 10 else c) s = s"
    by (induction s) auto
  with a show ?thesis
    by (simp add: normalizeLineEndings_def replaceCRLF_without_CR)
qed

lemma sanitize_eq: "sanitize content = filter safeAscii content"
proof -
  have "filter (\<lambda>c. \<not> controlCharacter c) (filter safeAscii content) = filter safeAscii content"
    by (induction content) (auto simp: safeAscii_not_control)
  moreover have "13 \<notin> set (filter safeAscii content)"
    by (simp add: safeAscii_def)
  ultimately show ?thesis
    by (simp add: sanitize_def normalizeLineEndings_without_CR)
qed

lemma sanitize_safe: "list_all safeAscii s \<Longrightarrow> sanitize s = s"
  by (simp add: sanitize_eq list_all_iff)

lemma set_replaceCRLF: "set (replaceCRLF s) \<subseteq> set s"
  by (induction s rule: replaceCRLF.induct) auto

lemma normalizeLineEndings_no_CR: "13 \<notin> set (normalizeLineEndings s)"
  by (auto simp: normalizeLineEndings_def)

lemma sanitize_index_safe_chars: "list_all safeAscii (sanitize_index content)"
proof -
  have "x \<in> set (normalizeLineEndings s) \<Longrightarrow> x = 10 \<or> (x \<in> set s \<and> x \<noteq> 13)" for x s
    using set_replaceCRLF[of s] by (auto simp: normalizeLineEndings_def)
  then show ?thesis
    unfolding sanitize_index_def Let_def list_all_iff
    by (fastforce simp: safeAscii_def safeAscii_index_def)
qed

lemma sanitize_index_safe: "list_all safeAscii s \<Longrightarrow> sanitize_index s = s"
proof -
  assume a: "list_all safeAscii s"
  then have "filter safeAscii_index s = s"
    by (auto simp: list_all_iff safeAscii_def safeAscii_index_def intro!: filter_True)
  moreover from a have "filter (\<lambda>c. \<not> controlCharacter c) s = s"
    by (auto simp: list_all_iff safeAscii_not_control intro!: filter_True)
  moreover from a have "13 \<notin> set s"
    by (auto simp: list_all_iff safeAscii_def)
  ultimately show ?thesis
    by (simp add: sanitize_index_def normalizeLineEndings_without_CR)
qed

lemma defaultManifest_safe: "list_all safeAscii (JSON_stringify numberToString defaultManifest)"
  by (simp add: json_eval defaultManifest_def safeAscii_def)

lemma defaultManifest_parses:
  "JSON_parse (JSON_stringify numberToString defaultManifest) = Some defaultManifest"
  by (simp add: json_eval defaultManifest_def)

lemma defaultManifest_nonempty: "JSON_stringify numberToString defaultManifest \<noteq> []"
  by (simp add: json_eval defaultManifest_def)

lemma emptyObject_parses: "JSON_parse (js ''{}'') = Some (JObject [])"
  by (simp add: json_eval)

lemma emptyObject_text: "JSON_stringify numberToString (JObject []) = js ''{}''"
  by (simp add: json_eval)

lemma String_includes_iff: "String_includes s t = (\<exists>a b. s = a @ t @ b)"
proof (induction s)
  case Nil
  show ?case by auto
next
  case (Cons c cs)
  show ?case
  proof
    assume "String_includes (c # cs) t"
    then consider "prefix t (c # cs)" | "String_includes cs t" by auto
    then show "\<exists>a b. c # cs = a @ t @ b"
    proof cases
      case 1
      then obtain b where "c # cs = t @ b" by (auto simp: prefix_def)
      then have "c # cs = [] @ t @ b" by simp
      then show ?thesis by blast
    next
      case 2
      with Cons.IH obtain a b where "cs = a @ t @ b" by auto
      then have "c # cs = (c # a) @ t @ b" by simp
      then show ?thesis by blast
    qed
  next
    assume "\<exists>a b. c # cs = a @ t @ b"
    then obtain a b where ab: "c # cs = a @ t @ b" by blast
    show "String_includes (c # cs) t"
    proof (cases a)
      case Nil
      with ab have "prefix t (c # cs)" by (simp add: prefix_def)
      then show ?thesis by simp
    next
      case (Cons x a')
      with ab have "cs = a' @ t @ b" by simp
      with Cons.IH have "String_includes cs t" by blast
      then show ?thesis by simp
    qed
  qed
qed

lemma package_json_is_package:
  "String_includes p (js ''package.json'') \<Longrightarrow> String_includes p (js ''package'')"
proof -
  assume "String_includes p (js ''package.json'')"
  then obtain a b where "p = a @ js ''package.json'' @ b"
    by (auto simp: String_includes_iff)
  moreover have "js ''package.json'' = js ''package'' @ js ''.json''"
    by (simp add: js_def)
  ultimately have "p = a @ js ''package'' @ (js ''.json'' @ b)" by simp
  then show ?thesis unfolding String_includes_iff by blast
qed

lemma ultraCleanContent_plain:
  "\<not> String_includes filePath (js ''.json'') \<Longrightarrow> \<not> String_includes filePath (js ''package'')
     \<Longrightarrow> ultraCleanContent numberToString content filePath = filter safeAscii content"
  by (simp add: ultraCleanContent_def sanitize_eq)

text \<open>
  C3 (as stated, refuted). The empty string is not valid JSON, and \<open>ultraCleanContent\<close>
  returns it as it is, for \<open>package.json\<close> too: an empty manifest is written, not the
  default.
\<close>

theorem empty_manifest_stays_empty:
  "JSON_parse [] = None
   \<and> ultraCleanContent (\<lambda>l. l) [] (js ''package.json'') = []
   \<and> JSON_stringify (\<lambda>l. l) defaultManifest \<noteq> []"
  by (simp add: ultraCleanContent_def defaultManifest_nonempty) (simp add: json_eval)

text \<open>
  C3 (amended). For every non-empty content whose text after steps 1 to 3 is not valid JSON,
  and every path whose repaired form contains \<open>package.json\<close>, the cleaned content is the
  serialization of \<open>defaultManifest\<close>, which does not depend on the content and parses back
  to \<open>defaultManifest\<close>; and for a session with a container, when the archive is accepted,
  \<open>writeFileToContainer\<close> returns normally, having written that default.
\<close>

theorem invalid_manifest_replaced_by_default:
  assumes "content \<noteq> []"
    and "JSON_parse (sanitize content) = None"
    and "String_includes (fixIncompleteExtension filePath) (js ''package.json'')"
    and "userContainers s userId = Some container"
  shows "ultraCleanContent numberToString content (fixIncompleteExtension filePath)
           = JSON_stringify numberToString defaultManifest
       \<and> JSON_parse (JSON_stringify numberToString defaultManifest) = Some defaultManifest
       \<and> writeFileToContainer numberToString None userId filePath content s
           = Inr (s\<lparr>workspace := (workspace s)
                    ((if startsWith (fixIncompleteExtension filePath) (js ''/'')
                      then drop 1 (fixIncompleteExtension filePath)
                      else fixIncompleteExtension filePath)
                     \<mapsto> JSON_stringify numberToString defaultManifest)\<rparr>)"
  using assms package_json_is_package[OF assms(3)]
  by (simp add: ultraCleanContent_def reformatJSON_def writeFileToContainer_def
        defaultManifest_parses)

theorem invalid_manifest_replaced_by_default_witness:
  "writeFileToContainer (\<lambda>l. l) None (js ''s1'') (js ''package.json'') (js ''{oops'')
      \<lparr>userContainers = [js ''s1'' \<mapsto> createOptions (js ''/app'') (js ''s1'')],
       userShells = Map.empty, workspace = Map.empty\<rparr>
    = Inr \<lparr>userContainers = [js ''s1'' \<mapsto> createOptions (js ''/app'') (js ''s1'')],
           userShells = Map.empty,
           workspace = [js ''package.json'' \<mapsto> JSON_stringify (\<lambda>l. l) defaultManifest]\<rparr>
   \<and> JSON_parse (JSON_stringify (\<lambda>l. l) defaultManifest) = Some defaultManifest"
proof -
  let ?s = "\<lparr>userContainers = [js ''s1'' \<mapsto> createOptions (js ''/app'') (js ''s1'')],
       userShells = Map.empty, workspace = Map.empty\<rparr>"
  have p: "fixIncompleteExtension (js ''package.json'') = js ''package.json''"
    by (simp add: string_eval)
  have a: "js ''{oops'' \<noteq> []" by (simp add: js_def)
  have b: "JSON_parse (sanitize (js ''{oops'')) = None"
    by (simp add: sanitize_eq safeAscii_def json_eval)
  have c: "String_includes (fixIncompleteExtension (js ''package.json'')) (js ''package.json'')"
    by (simp add: p) (simp add: js_def)
  have e: "userContainers ?s (js ''s1'') = Some (createOptions (js ''/app'') (js ''s1''))"
    by simp
  have f: "\<not> startsWith (js ''package.json'') (js ''/'')"
    by (simp add: string_eval)
  from invalid_manifest_replaced_by_default[OF a b c e, of "\<lambda>l. l"] f show ?thesis
    by (simp add: p)
qed

text \<open>
  C4 (as stated, refuted). The content is the JSON text of eight printable ASCII
  characters: a quote, a backslash, \<open>u00e9\<close> and a quote; the path is \<open>data.json\<close>. The
  escape is parsed and re-serialized as the character itself, and the file holds the code
  unit 233.
\<close>

theorem json_file_written_with_non_ascii:
  "writeFileToContainer (\<lambda>l. l) None (js ''s1'') (js ''data.json'') ([34, 92, 117] @ js ''00e9'' @ [34])
      \<lparr>userContainers = [js ''s1'' \<mapsto> createOptions (js ''/app'') (js ''s1'')],
       userShells = Map.empty, workspace = Map.empty\<rparr>
    = Inr \<lparr>userContainers = [js ''s1'' \<mapsto> createOptions (js ''/app'') (js ''s1'')],
           userShells = Map.empty, workspace = [js ''data.json'' \<mapsto> [34, 233, 34]]\<rparr>
   \<and> \<not> safeAscii 233"
proof -
  have p: "fixIncompleteExtension (js ''data.json'') = js ''data.json''"
    by (simp add: string_eval)
  have i: "String_includes (js ''data.json'') (js ''.json'')"
    by (simp add: js_def)
  have c: "ultraCleanContent (\<lambda>l. l) ([34, 92, 117] @ js ''00e9'' @ [34]) (js ''data.json'') = [34, 233, 34]"
    unfolding ultraCleanContent_def reformatJSON_def Let_def
    by (simp add: i sanitize_eq safeAscii_def json_eval)
  have e: "\<not> startsWith (js ''data.json'') (js ''/'')"
    by (simp add: string_eval)
  show ?thesis
    using c e by (simp add: writeFileToContainer_def Let_def p safeAscii_def)
qed

text \<open>
  C4 (amended). For a session with a container and a path whose repaired form contains
  neither \<open>.json\<close> nor \<open>package\<close>, when the archive is accepted the content written
  consists of printable ASCII, line feeds and tabs only and has no carriage return, and
  every CRLF of the input leaves its line feed.
\<close>

theorem plain_files_written_clean:
  assumes "userContainers s userId = Some container"
    and "\<not> String_includes (fixIncompleteExtension filePath) (js ''.json'')"
    and "\<not> String_includes (fixIncompleteExtension filePath) (js ''package'')"
  shows "\<exists>text.
           writeFileToContainer numberToString None userId filePath content s
             = Inr (s\<lparr>workspace := (workspace s)
                      ((if startsWith (fixIncompleteExtension filePath) (js ''/'')
                        then drop 1 (fixIncompleteExtension filePath)
                        else fixIncompleteExtension filePath) \<mapsto> text)\<rparr>)
         \<and> list_all safeAscii text \<and> 13 \<notin> set text
         \<and> ultraCleanContent numberToString (a @ [13, 10] @ b) (fixIncompleteExtension filePath)
             = ultraCleanContent numberToString a (fixIncompleteExtension filePath) @ [10]
               @ ultraCleanContent numberToString b (fixIncompleteExtension filePath)"
proof -
  let ?fixed = "fixIncompleteExtension filePath"
  have w: "writeFileToContainer numberToString None userId filePath content s
             = Inr (s\<lparr>workspace := (workspace s)
                      ((if startsWith ?fixed (js ''/'') then drop 1 ?fixed else ?fixed)
                         \<mapsto> filter safeAscii content)\<rparr>)"
    using assms by (simp add: writeFileToContainer_def ultraCleanContent_plain)
  have s: "list_all safeAscii (filter safeAscii content)"
    by (simp add: list_all_iff)
  have n: "13 \<notin> set (filter safeAscii content)"
    by (simp add: safeAscii_def)
  have h: "ultraCleanContent numberToString (a @ [13, 10] @ b) ?fixed
             = ultraCleanContent numberToString a ?fixed @ [10]
               @ ultraCleanContent numberToString b ?fixed"
    unfolding ultraCleanContent_plain[OF assms(2) assms(3)]
    by (simp add: safeAscii_def)
  from w s n h show ?thesis by blast
qed

theorem plain_files_written_clean_witness:
  "writeFileToContainer (\<lambda>l. l) None (js ''s1'') (js ''main.py'') (js ''a'' @ [13, 10, 233] @ js ''b'')
      \<lparr>userContainers = [js ''s1'' \<mapsto> createOptions (js ''/app'') (js ''s1'')],
       userShells = Map.empty, workspace = Map.empty\<rparr>
    = Inr \<lparr>userContainers = [js ''s1'' \<mapsto> createOptions (js ''/app'') (js ''s1'')],
           userShells = Map.empty,
           workspace = [js ''main.py'' \<mapsto> js ''a'' @ [10] @ js ''b'']\<rparr>"
proof -
  let ?s = "\<lparr>userContainers = [js ''s1'' \<mapsto> createOptions (js ''/app'') (js ''s1'')],
       userShells = Map.empty, workspace = Map.empty\<rparr>"
  have p: "fixIncompleteExtension (js ''main.py'') = js ''main.py''"
    by (simp add: string_eval)
  have a: "userContainers ?s (js ''s1'') = Some (createOptions (js ''/app'') (js ''s1''))"
    by simp
  have b: "\<not> String_includes (fixIncompleteExtension (js ''main.py'')) (js ''.json'')"
    by (simp add: p) (simp add: js_def)
  have c: "\<not> String_includes (fixIncompleteExtension (js ''main.py'')) (js ''package'')"
    by (simp add: p) (simp add: js_def)
  have d: "ultraCleanContent (\<lambda>l. l) (js ''a'' @ [13, 10, 233] @ js ''b'') (js ''main.py'')
             = js ''a'' @ [10] @ js ''b''"
    using b c by (simp add: p ultraCleanContent_plain) (simp add: js_def safeAscii_def)
  have e: "\<not> startsWith (js ''main.py'') (js ''/'')"
    by (simp add: string_eval)
  show ?thesis
    using plain_files_written_clean[OF a b c, of "\<lambda>l. l" "js ''a'' @ [13, 10, 233] @ js ''b''" "[]" "[]"]
      d e
    by (simp add: writeFileToContainer_def p)
qed

text \<open>
  A carriage return on its own is deleted by step 1 of \<open>DockerManager.ultraCleanContent\<close>
  before step 3 could turn it into a line feed; \<open>ultraCleanContent\<close> of index.ts, whose
  step 1 keeps it, does turn it into a line feed.
\<close>

lemma lone_CR_is_deleted:
  "ultraCleanContent numberToString (js ''a'' @ [13] @ js ''b'') (js ''main.py'') = js ''ab''
   \<and> ultraCleanContent_index numberToString (js ''a'' @ [13] @ js ''b'') (js ''main.py'')
        = js ''a'' @ [10] @ js ''b''"
  by (simp add: clean_eval js_def)

lemma ultraCleanContent_fallback_fixed:
  assumes "String_includes p (js ''.json'') \<or> String_includes p (js ''package'')"
    and "list_all safeAscii r" and "r \<noteq> []"
    and "JSON_parse r = Some v" and "JSON_stringify numberToString v = r"
  shows "ultraCleanContent numberToString r p = r"
    and "ultraCleanContent_index numberToString r p = r"
  using assms
  by (simp_all add: ultraCleanContent_def ultraCleanContent_index_def reformatJSON_def
        sanitize_safe sanitize_index_safe)

lemma emptyObject_safe: "list_all safeAscii (js ''{}'')"
  by (simp add: js_def safeAscii_def)

lemma reformatJSON_fallback_fixed:
  assumes "String_includes p (js ''.json'') \<or> String_includes p (js ''package'')"
    and "JSON_parse cleaned = None"
  shows "ultraCleanContent numberToString (reformatJSON numberToString cleaned p) p
           = reformatJSON numberToString cleaned p"
    and "ultraCleanContent_index numberToString (reformatJSON numberToString cleaned p) p
           = reformatJSON numberToString cleaned p"
proof -
  have d: "reformatJSON numberToString cleaned p = JSON_stringify numberToString defaultManifest"
    if "String_includes p (js ''package.json'')"
    using that assms(2) by (simp add: reformatJSON_def)
  have e: "reformatJSON numberToString cleaned p = js ''{}''"
    if "\<not> String_includes p (js ''package.json'')"
    using that assms(2) by (simp add: reformatJSON_def)
  have ne: "js ''{}'' \<noteq> []" by (simp add: js_def)
  show "ultraCleanContent numberToString (reformatJSON numberToString cleaned p) p
           = reformatJSON numberToString cleaned p"
  proof (cases "String_includes p (js ''package.json'')")
    case True
    show ?thesis
      unfolding d[OF True]
      by (rule ultraCleanContent_fallback_fixed(1)[OF assms(1) defaultManifest_safe
            defaultManifest_nonempty defaultManifest_parses refl])
  next
    case False
    show ?thesis
      unfolding e[OF False]
      by (rule ultraCleanContent_fallback_fixed(1)[OF assms(1) emptyObject_safe ne
            emptyObject_parses emptyObject_text])
  qed
  show "ultraCleanContent_index numberToString (reformatJSON numberToString cleaned p) p
           = reformatJSON numberToString cleaned p"
  proof (cases "String_includes p (js ''package.json'')")
    case True
    show ?thesis
      unfolding d[OF True]
      by (rule ultraCleanContent_fallback_fixed(2)[OF assms(1) defaultManifest_safe
            defaultManifest_nonempty defaultManifest_parses refl])
  next
    case False
    show ?thesis
      unfolding e[OF False]
      by (rule ultraCleanContent_fallback_fixed(2)[OF assms(1) emptyObject_safe ne
            emptyObject_parses emptyObject_text])
  qed
qed

text \<open>
  C5 (as stated, refuted). Cleaning the same eight characters for \<open>data.json\<close> gives a
  quoted code unit 233; cleaning that again deletes the code unit and gives two quotes.
\<close>

theorem reserialized_escape_not_idempotent:
  "ultraCleanContent (\<lambda>l. l) ([34, 92, 117] @ js ''00e9'' @ [34]) (js ''data.json'') = [34, 233, 34]
   \<and> ultraCleanContent (\<lambda>l. l)
        (ultraCleanContent (\<lambda>l. l) ([34, 92, 117] @ js ''00e9'' @ [34]) (js ''data.json''))
        (js ''data.json'') = [34, 34]"
proof -
  have i: "String_includes (js ''data.json'') (js ''.json'')"
    by (simp add: js_def)
  have c: "ultraCleanContent (\<lambda>l. l) ([34, 92, 117] @ js ''00e9'' @ [34]) (js ''data.json'') = [34, 233, 34]"
    unfolding ultraCleanContent_def reformatJSON_def Let_def
    by (simp add: i sanitize_eq safeAscii_def json_eval)
  have d: "ultraCleanContent (\<lambda>l. l) [34, 233, 34] (js ''data.json'') = [34, 34]"
    unfolding ultraCleanContent_def reformatJSON_def Let_def
    by (simp add: i sanitize_eq safeAscii_def json_eval)
  from c d show ?thesis by simp
qed

text \<open>
  Where the content is not re-serialized, cleaning twice gives the same as cleaning once,
  whatever the number formatting: the path contains neither \<open>.json\<close> nor \<open>package\<close>, or
  the text left by steps 1 to 3 is not valid JSON (the two defaults are fixed points of the
  cleaning).
\<close>

lemma cleaning_idempotent_without_reserialization:
  assumes "String_includes p (js ''.json'') \<or> String_includes p (js ''package'')
             \<Longrightarrow> JSON_parse (sanitize content) = None \<and> JSON_parse (sanitize_index content) = None"
  shows "ultraCleanContent numberToString (ultraCleanContent numberToString content p) p
           = ultraCleanContent numberToString content p
       \<and> ultraCleanContent_index numberToString (ultraCleanContent_index numberToString content p) p
           = ultraCleanContent_index numberToString content p"
proof (cases "String_includes p (js ''.json'') \<or> String_includes p (js ''package'')")
  case True
  from assms[OF True] have n: "JSON_parse (sanitize content) = None"
    and ni: "JSON_parse (sanitize_index content) = None" by simp_all
  show ?thesis
  proof (cases "content = []")
    case True
    then show ?thesis
      by (simp add: ultraCleanContent_def ultraCleanContent_index_def)
  next
    case False
    with True have "ultraCleanContent numberToString content p
                      = reformatJSON numberToString (sanitize content) p"
      and "ultraCleanContent_index numberToString content p
                      = reformatJSON numberToString (sanitize_index content) p"
      by (simp_all add: ultraCleanContent_def ultraCleanContent_index_def)
    then show ?thesis
      by (simp add: reformatJSON_fallback_fixed[OF True n] reformatJSON_fallback_fixed[OF True ni])
  qed
next
  case False
  have i: "sanitize_index (sanitize_index content) = sanitize_index content"
    by (rule sanitize_index_safe[OF sanitize_index_safe_chars])
  have e: "sanitize_index [] = []"
    by (simp add: sanitize_index_def normalizeLineEndings_def)
  from False show ?thesis
    by (simp add: ultraCleanContent_def ultraCleanContent_index_def sanitize_eq i e)
qed

text \<open>
  Where the content is re-serialized and the output has only characters of the
  whitelist, the second cleaning leaves the output to the parser as it is, and the parser
  reads back what was written.
\<close>

lemma reformatJSON_fixed:
  assumes st: "stableNumbers numberToString"
    and path: "String_includes p (js ''.json'') \<or> String_includes p (js ''package'')"
    and safe: "list_all safeAscii (reformatJSON numberToString cleaned p)"
  shows "ultraCleanContent numberToString (reformatJSON numberToString cleaned p) p
           = reformatJSON numberToString cleaned p"
    and "ultraCleanContent_index numberToString (reformatJSON numberToString cleaned p) p
           = reformatJSON numberToString cleaned p"
proof -
  show "ultraCleanContent numberToString (reformatJSON numberToString cleaned p) p
           = reformatJSON numberToString cleaned p"
  proof (cases "JSON_parse cleaned")
    case None
    show ?thesis by (rule reformatJSON_fallback_fixed(1)[OF path None])
  next
    case (Some v)
    then have r: "reformatJSON numberToString cleaned p = JSON_stringify numberToString v"
      by (simp add: reformatJSON_def)
    have wf: "wellFormed v" by (rule JSON_parse_wellFormed[OF Some])
    show ?thesis
      unfolding r
      by (rule ultraCleanContent_fallback_fixed(1)[OF path safe[unfolded r]
            JSON_stringify_nonempty[OF st wf] JSON_parse_stringify[OF st wf]
            JSON_stringify_reread[OF st wf]])
  qed
  show "ultraCleanContent_index numberToString (reformatJSON numberToString cleaned p) p
           = reformatJSON numberToString cleaned p"
  proof (cases "JSON_parse cleaned")
    case None
    show ?thesis by (rule reformatJSON_fallback_fixed(2)[OF path None])
  next
    case (Some v)
    then have r: "reformatJSON numberToString cleaned p = JSON_stringify numberToString v"
      by (simp add: reformatJSON_def)
    have wf: "wellFormed v" by (rule JSON_parse_wellFormed[OF Some])
    show ?thesis
      unfolding r
      by (rule ultraCleanContent_fallback_fixed(2)[OF path safe[unfolded r]
            JSON_stringify_nonempty[OF st wf] JSON_parse_stringify[OF st wf]
            JSON_stringify_reread[OF st wf]])
  qed
qed

lemma sanitize_idem: "sanitize (sanitize content) = sanitize content"
  by (simp add: sanitize_eq)

lemma sanitize_index_idem: "sanitize_index (sanitize_index content) = sanitize_index content"
  by (rule sanitize_index_safe[OF sanitize_index_safe_chars])

lemma sanitize_index_Nil: "sanitize_index [] = []"
  by (simp add: sanitize_index_def normalizeLineEndings_def)

text \<open>
  C5 (amended). For a number formatting that writes number literals and writes its own
  output unchanged, cleaning twice gives the same as cleaning once, for
  \<open>ultraCleanContent\<close> of DockerManager and of index.ts, whenever the first cleaning
  returns only characters of the whitelist (printable ASCII, line feed, tab): on every path
  that is not re-serialized, and on the JSON paths whenever \<open>JSON.stringify\<close> has written
  no other character.
\<close>

theorem cleaning_idempotent_on_whitelisted_output:
  assumes "stableNumbers numberToString"
  shows "(list_all safeAscii (ultraCleanContent numberToString content p) \<longrightarrow>
            ultraCleanContent numberToString (ultraCleanContent numberToString content p) p
              = ultraCleanContent numberToString content p)
       \<and> (list_all safeAscii (ultraCleanContent_index numberToString content p) \<longrightarrow>
            ultraCleanContent_index numberToString (ultraCleanContent_index numberToString content p) p
              = ultraCleanContent_index numberToString content p)"
proof (cases "content = []")
  case True
  then show ?thesis
    by (simp add: ultraCleanContent_def ultraCleanContent_index_def)
next
  case False
  show ?thesis
  proof (cases "String_includes p (js ''.json'') \<or> String_includes p (js ''package'')")
    case True
    from True False have r: "ultraCleanContent numberToString content p
                      = reformatJSON numberToString (sanitize content) p"
      and ri: "ultraCleanContent_index numberToString content p
                      = reformatJSON numberToString (sanitize_index content) p"
      by (simp_all add: ultraCleanContent_def ultraCleanContent_index_def)
    show ?thesis
      unfolding r ri
      using reformatJSON_fixed(1)[OF assms True, of "sanitize content"]
        reformatJSON_fixed(2)[OF assms True, of "sanitize_index content"]
      by blast
  next
    case False
    then show ?thesis
      by (simp add: ultraCleanContent_def ultraCleanContent_index_def
            sanitize_idem sanitize_index_idem sanitize_index_Nil sanitize_eq)
  qed
qed

theorem cleaning_idempotent_on_whitelisted_output_witness:
  "ultraCleanContent (\<lambda>l. l) (js ''{'' @ [34] @ js ''a'' @ [34] @ js '':[1,2]}'') (js ''data.json'')
     = js ''{'' @ [10] @ js ''  '' @ [34] @ js ''a'' @ [34] @ js '': ['' @ [10]
         @ js ''    1,'' @ [10] @ js ''    2'' @ [10] @ js ''  ]'' @ [10] @ js ''}''
   \<and> ultraCleanContent (\<lambda>l. l)
        (ultraCleanContent (\<lambda>l. l) (js ''{'' @ [34] @ js ''a'' @ [34] @ js '':[1,2]}'') (js ''data.json''))
        (js ''data.json'')
     = ultraCleanContent (\<lambda>l. l) (js ''{'' @ [34] @ js ''a'' @ [34] @ js '':[1,2]}'') (js ''data.json'')"
proof -
  have st: "stableNumbers (\<lambda>l. l)"
    by (simp add: stableNumbers_def)
  have i: "String_includes (js ''data.json'') (js ''.json'')"
    by (simp add: js_def)
  have r: "ultraCleanContent (\<lambda>l. l) (js ''{'' @ [34] @ js ''a'' @ [34] @ js '':[1,2]}'') (js ''data.json'')
     = js ''{'' @ [10] @ js ''  '' @ [34] @ js ''a'' @ [34] @ js '': ['' @ [10]
         @ js ''    1,'' @ [10] @ js ''    2'' @ [10] @ js ''  ]'' @ [10] @ js ''}''"
    unfolding ultraCleanContent_def reformatJSON_def Let_def
    by (simp add: i sanitize_eq safeAscii_def json_eval)
  have safe: "list_all safeAscii (js ''{'' @ [10] @ js ''  '' @ [34] @ js ''a'' @ [34] @ js '': ['' @ [10]
         @ js ''    1,'' @ [10] @ js ''    2'' @ [10] @ js ''  ]'' @ [10] @ js ''}'')"
    by (simp add: js_def safeAscii_def)
  from cleaning_idempotent_on_whitelisted_output[OF st,
      of "js ''{'' @ [34] @ js ''a'' @ [34] @ js '':[1,2]}''" "js ''data.json''"]
    r safe
  show ?thesis by simp
qed

end
